theory Spec2Isabelle
  imports Main "HOL-Library.Sublist" "HOL-Library.AList"
begin

section \<open>JavaScript strings, objects and regular expressions\<close>

text \<open>
  The builder \<^verbatim>\<open>src/lib/core.js\<close> is a class of static functions that compute
  plain data (file-name templates, entry tables, alias tables) and two callbacks of
  the offline packer (\<^verbatim>\<open>pathMapper\<close>, \<^verbatim>\<open>beforeAddBuffer\<close>).  A JavaScript string
  is modelled as a \<^typ>\<open>string\<close> (the code units that fit a byte; the line terminators
  among them are \<^verbatim>\<open>\n\<close> and \<^verbatim>\<open>\r\<close>) and \<^verbatim>\<open>null\<close> as \<^term>\<open>None\<close>.  The ambient inputs of
  the code are parameters of the model: the project root (\<^verbatim>\<open>projectRoot\<close>), the file
  system (\<^verbatim>\<open>fs.existsSync\<close>, a predicate on paths; the names of the subdirectories of a
  directory) and the clock (\<^verbatim>\<open>Date.now()\<close>, a natural number of milliseconds).  Every
  function of the model is total, as the code is on strings: none of the functions
  modelled here raises.
\<close>

subsection \<open>Objects used as tables\<close>

text \<open>
  The code builds its tables by assignments \<^verbatim>\<open>o[k] = v\<close> to an object that starts as
  \<^verbatim>\<open>{}\<close>, with strings for \<^verbatim>\<open>k\<close> and \<^verbatim>\<open>v\<close>.  Such an object is an association list of
  its own properties in the order of their creation.  An assignment replaces the value
  of a key that is there and adds a key that is not, with one exception: the key
  \<^verbatim>\<open>__proto__\<close> is the accessor of the prototype, and assigning a string to it changes
  nothing, so that no own property is made.
\<close>

type_synonym js_object = "(string \<times> string) list"

definition obj_set :: "string \<Rightarrow> string \<Rightarrow> js_object \<Rightarrow> js_object" where
  "obj_set k v obj = (if k = ''__proto__'' then obj else AList.update k v obj)"

subsection \<open>Searching and replacing with a string pattern\<close>

text \<open>
  \<^verbatim>\<open>split_first p s\<close> finds the first occurrence of \<^verbatim>\<open>p\<close> in \<^verbatim>\<open>s\<close> and returns what
  stands before and after it.  \<^verbatim>\<open>s.indexOf(p)\<close> is the length of the part before,
  or \<^verbatim>\<open>-1\<close>.
\<close>

fun split_first :: "string \<Rightarrow> string \<Rightarrow> (string \<times> string) option" where
  "split_first p [] = (if p = [] then Some ([], []) else None)"
| "split_first p (x # xs) =
     (if prefix p (x # xs) then Some ([], drop (length p) (x # xs))
      else map_option (\<lambda>(a, b). (x # a, b)) (split_first p xs))"

definition indexOf :: "string \<Rightarrow> string \<Rightarrow> int" where
  "indexOf s p = (case split_first p s of None \<Rightarrow> - 1 | Some (a, b) \<Rightarrow> int (length a))"

subsection \<open>Replacement templates\<close>

text \<open>
  The second argument of \<^verbatim>\<open>String.prototype.replace\<close> is a template: \<^verbatim>\<open>$$\<close> is a
  dollar, \<^verbatim>\<open>$&\<close> the match, \<^verbatim>\<open>$\<close> followed by a backquote the text before the match,
  \<^verbatim>\<open>$'\<close> the text after it, \<^verbatim>\<open>$n\<close> and \<^verbatim>\<open>$nn\<close> the n-th capture when the
  expression has that many groups (a two-digit index that is too large is read as
  one digit followed by a literal digit); any other dollar stands for itself.
  \<^verbatim>\<open>subst t m b a cs\<close> expands the template \<^verbatim>\<open>t\<close> for the match \<^verbatim>\<open>m\<close> with the text
  \<^verbatim>\<open>b\<close> before it, the text \<^verbatim>\<open>a\<close> after it and the captures \<^verbatim>\<open>cs\<close>.
\<close>

definition is_digit :: "char \<Rightarrow> bool" where
  "is_digit c = (c \<in> set ''0123456789'')"

definition digit_val :: "char \<Rightarrow> nat" where
  "digit_val c = of_char c - 48"

definition one_digit :: "char \<Rightarrow> string list \<Rightarrow> string" where
  "one_digit u cs =
     (if 1 \<le> digit_val u \<and> digit_val u \<le> length cs then cs ! (digit_val u - 1)
      else [CHR ''$'', u])"

fun subst :: "string \<Rightarrow> string \<Rightarrow> string \<Rightarrow> string \<Rightarrow> string list \<Rightarrow> string" where
  "subst [] m b a cs = []"
| "subst [t] m b a cs = [t]"
| "subst (t # u # us) m b a cs =
     (if t \<noteq> CHR ''$'' then t # subst (u # us) m b a cs
      else if u = CHR ''$'' then CHR ''$'' # subst us m b a cs
      else if u = CHR ''&'' then m @ subst us m b a cs
      else if u = CHR 0x60 then b @ subst us m b a cs
      else if u = CHR 0x27 then a @ subst us m b a cs
      else if is_digit u then
        (case us of
           [] \<Rightarrow> one_digit u cs
         | v # vs \<Rightarrow>
             if is_digit v \<and> 10 * digit_val u + digit_val v \<le> length cs then
               (if 1 \<le> 10 * digit_val u + digit_val v
                then cs ! (10 * digit_val u + digit_val v - 1) @ subst vs m b a cs
                else [CHR ''$'', u, v] @ subst vs m b a cs)
             else one_digit u cs @ subst (v # vs) m b a cs)
      else CHR ''$'' # subst (u # us) m b a cs)"

text \<open>\<^verbatim>\<open>s.replace(p, t)\<close> with a string \<^verbatim>\<open>p\<close>: the first occurrence only.\<close>

definition replace_str :: "string \<Rightarrow> string \<Rightarrow> string \<Rightarrow> string" where
  "replace_str s p t =
     (case split_first p s of
        None \<Rightarrow> s
      | Some (a, b) \<Rightarrow> a @ subst t p a b [] @ b)"

subsection \<open>Regular expressions\<close>

text \<open>
  Every regular expression of the file is a sequence of one-character classes, each
  taken once or repeated (\<^verbatim>\<open>+\<close>, \<^verbatim>\<open>*\<close> greedy, \<^verbatim>\<open>*?\<close> lazy), with capture groups
  around runs of them.  \<^verbatim>\<open>rmatch\<close> is the backtracking matcher anchored at the start
  of its input: it returns the text each item consumed and the rest of the input,
  trying the alternatives of a repetition in the order the language prescribes
  (longest first when greedy, shortest first when lazy).  A dot matches every
  character but a line terminator.
\<close>

datatype cclass = Lit char | Dot | OneOf string | NoneOf string

fun cmatch :: "cclass \<Rightarrow> char \<Rightarrow> bool" where
  "cmatch (Lit a) c = (c = a)"
| "cmatch Dot c = (c \<noteq> CHR 0x0A \<and> c \<noteq> CHR 0x0D)"
| "cmatch (OneOf cs) c = (c \<in> set cs)"
| "cmatch (NoneOf cs) c = (c \<notin> set cs)"

datatype quant = One | PlusG | StarG | StarL

type_synonym item = "cclass \<times> quant"

fun add_char :: "char \<Rightarrow> string list \<times> string \<Rightarrow> string list \<times> string" where
  "add_char x ([], r) = ([[x]], r)"
| "add_char x (sp # sps, r) = ((x # sp) # sps, r)"

fun add_span :: "string \<Rightarrow> string list \<times> string \<Rightarrow> string list \<times> string" where
  "add_span sp (sps, r) = (sp # sps, r)"

fun rmatch :: "item list \<Rightarrow> string \<Rightarrow> (string list \<times> string) option" where
  "rmatch [] s = Some ([], s)"
| "rmatch ((c, One) # ps) [] = None"
| "rmatch ((c, One) # ps) (x # xs) =
     (if cmatch c x then map_option (add_span [x]) (rmatch ps xs) else None)"
| "rmatch ((c, PlusG) # ps) [] = None"
| "rmatch ((c, PlusG) # ps) (x # xs) =
     (if cmatch c x then map_option (add_char x) (rmatch ((c, StarG) # ps) xs) else None)"
| "rmatch ((c, StarG) # ps) [] = map_option (add_span []) (rmatch ps [])"
| "rmatch ((c, StarG) # ps) (x # xs) =
     (if cmatch c x then
        (case rmatch ((c, StarG) # ps) xs of
           Some m \<Rightarrow> Some (add_char x m)
         | None \<Rightarrow> map_option (add_span []) (rmatch ps (x # xs)))
      else map_option (add_span []) (rmatch ps (x # xs)))"
| "rmatch ((c, StarL) # ps) [] = map_option (add_span []) (rmatch ps [])"
| "rmatch ((c, StarL) # ps) (x # xs) =
     (case rmatch ps (x # xs) of
        Some m \<Rightarrow> Some (add_span [] m)
      | None \<Rightarrow>
          if cmatch c x then map_option (add_char x) (rmatch ((c, StarL) # ps) xs)
          else None)"

text \<open>A regular expression: its parts in order, a part being a capture group or not.\<close>

datatype part = Plain "item list" | Group "item list"

type_synonym regex = "part list"

fun items_of :: "part \<Rightarrow> item list" where
  "items_of (Plain is) = is"
| "items_of (Group is) = is"

definition flat :: "regex \<Rightarrow> item list" where
  "flat rx = concat (map items_of rx)"

fun captures :: "regex \<Rightarrow> string list \<Rightarrow> string list" where
  "captures [] sps = []"
| "captures (Plain is # rx) sps = captures rx (drop (length is) sps)"
| "captures (Group is # rx) sps =
     concat (take (length is) sps) # captures rx (drop (length is) sps)"

definition lits :: "string \<Rightarrow> item list" where
  "lits s = map (\<lambda>c. (Lit c, One)) s"

text \<open>
  \<^verbatim>\<open>rsearch\<close> is the leftmost match: the text before it, the spans of the items and
  the text after it (\<^verbatim>\<open>RegExp.prototype.exec\<close> from index 0).
\<close>

fun rsearch :: "item list \<Rightarrow> string \<Rightarrow> (string \<times> string list \<times> string) option" where
  "rsearch ps [] =
     (case rmatch ps [] of Some (sps, r) \<Rightarrow> Some ([], sps, r) | None \<Rightarrow> None)"
| "rsearch ps (x # xs) =
     (case rmatch ps (x # xs) of
        Some (sps, r) \<Rightarrow> Some ([], sps, r)
      | None \<Rightarrow> map_option (\<lambda>(a, sps, r). (x # a, sps, r)) (rsearch ps xs))"

text \<open>\<^verbatim>\<open>s.match(rx)\<close> without the global flag: \<^verbatim>\<open>null\<close>, or the captures.\<close>

definition js_match :: "regex \<Rightarrow> string \<Rightarrow> string list option" where
  "js_match rx s =
     (case rsearch (flat rx) s of
        None \<Rightarrow> None
      | Some (a, sps, r) \<Rightarrow> Some (captures rx sps))"

text \<open>\<^verbatim>\<open>s.replace(rx, t)\<close> without the global flag: the leftmost match only.\<close>

definition replace_first :: "regex \<Rightarrow> string \<Rightarrow> string \<Rightarrow> string" where
  "replace_first rx t s =
     (case rsearch (flat rx) s of
        None \<Rightarrow> s
      | Some (a, sps, r) \<Rightarrow> a @ subst t (concat sps) a r (captures rx sps) @ r)"

text \<open>
  \<^verbatim>\<open>s.replace(rx, t)\<close> with the global flag: the matches from left to right, each
  search starting where the last match ended (one character further after an empty
  match).  \<^verbatim>\<open>b\<close> is the text already passed.
\<close>

function replace_from :: "regex \<Rightarrow> string \<Rightarrow> string \<Rightarrow> string \<Rightarrow> string" where
  "replace_from rx t b s =
     (case rmatch (flat rx) s of
        Some (sps, r) \<Rightarrow>
          subst t (concat sps) b r (captures rx sps) @
          (if length r < length s then replace_from rx t (b @ concat sps) r
           else (case s of [] \<Rightarrow> [] | x # xs \<Rightarrow> x # replace_from rx t (b @ [x]) xs))
      | None \<Rightarrow> (case s of [] \<Rightarrow> [] | x # xs \<Rightarrow> x # replace_from rx t (b @ [x]) xs))"
  by pat_completeness auto
termination
  by (relation "measure (\<lambda>(rx, t, b, s). length s)") auto

definition replace_all :: "regex \<Rightarrow> string \<Rightarrow> string \<Rightarrow> string" where
  "replace_all rx t s = replace_from rx t [] s"


subsection \<open>Paths\<close>

text \<open>
  \<^verbatim>\<open>path.join\<close> of Node on a POSIX system: the non-empty arguments are put together
  with \<^verbatim>\<open>/\<close> and the result is normalised (empty and \<^verbatim>\<open>.\<close> segments dropped, \<^verbatim>\<open>..\<close>
  resolved against the segment before it, a leading and a trailing slash kept).
\<close>

fun split_on :: "char \<Rightarrow> string \<Rightarrow> string list" where
  "split_on c [] = [[]]"
| "split_on c (x # xs) =
     (if x = c then [] # split_on c xs
      else (case split_on c xs of [] \<Rightarrow> [[x]] | h # t \<Rightarrow> (x # h) # t))"

fun join_with :: "string \<Rightarrow> string list \<Rightarrow> string" where
  "join_with sep [] = []"
| "join_with sep [x] = x"
| "join_with sep (x # y # ys) = x @ sep @ join_with sep (y # ys)"

fun norm_segs :: "bool \<Rightarrow> string list \<Rightarrow> string list \<Rightarrow> string list" where
  "norm_segs allowAboveRoot res [] = res"
| "norm_segs allowAboveRoot res (seg # segs) =
     (if seg = [] \<or> seg = ''.'' then norm_segs allowAboveRoot res segs
      else if seg = ''..'' then
        (if res \<noteq> [] \<and> last res \<noteq> ''..'' then norm_segs allowAboveRoot (butlast res) segs
         else if allowAboveRoot then norm_segs allowAboveRoot (res @ [''..'']) segs
         else norm_segs allowAboveRoot res segs)
      else norm_segs allowAboveRoot (res @ [seg]) segs)"

definition path_normalize :: "string \<Rightarrow> string" where
  "path_normalize p =
     (if p = [] then ''.''
      else
        (let isAbsolute = (hd p = CHR ''/'');
             trailingSeparator = (last p = CHR ''/'');
             r = join_with ''/'' (norm_segs (\<not> isAbsolute) [] (split_on CHR ''/'' p))
         in if r = [] then (if isAbsolute then ''/'' else if trailingSeparator then ''./'' else ''.'')
            else (if isAbsolute then ''/'' else []) @ r @ (if trailingSeparator then ''/'' else [])))"

definition path_join :: "string list \<Rightarrow> string" where
  "path_join args =
     (let joined = filter (\<lambda>a. a \<noteq> []) args
      in if joined = [] then ''.'' else path_normalize (join_with ''/'' joined))"

subsection \<open>Numbers as text\<close>

text \<open>\<^verbatim>\<open>JSON.stringify\<close> of a non-negative integer: its decimal digits.\<close>

definition digit_char :: "nat \<Rightarrow> char" where
  "digit_char d = ''0123456789'' ! d"

function digits :: "nat \<Rightarrow> string" where
  "digits n = (if n < 10 then [digit_char n] else digits (n div 10) @ [digit_char (n mod 10)])"
  by pat_completeness auto
termination
  by (relation "measure id") auto

text \<open>\<^verbatim>\<open>'' + v\<close> for a value that is a string or \<^verbatim>\<open>null\<close>.\<close>

fun js_string :: "string option \<Rightarrow> string" where
  "js_string None = ''null''"
| "js_string (Some s) = s"

section \<open>The builder\<close>

subsection \<open>setOutput\<close>

record output_spec =
  filename :: string
  path :: string
  publicPath :: string
  crossOriginLoading :: string

text \<open>
  An argument that the code tests for truth (\<^verbatim>\<open>pathPrefix\<close>, \<^verbatim>\<open>outDir\<close>,
  \<^verbatim>\<open>htmlPrefix\<close>) is a string here: the empty string is the false one.
\<close>

definition setOutput :: "string \<Rightarrow> bool \<Rightarrow> string \<Rightarrow> string \<Rightarrow> string \<Rightarrow> output_spec" where
  "setOutput projectRoot useHash pathPrefix pubPath outDir =
     (let filename0 = (if pathPrefix \<noteq> [] then pathPrefix @ ''/'' else []);
          hash = (if useHash then ''_[chunkhash:8]'' else []);
          outDir' = (if outDir \<noteq> [] then outDir else ''public'')
      in \<lparr> filename = filename0 @ ''[name]'' @ hash @ ''.js?_bid=152'',
           path = path_join [projectRoot, outDir' @ ''/''],
           publicPath = pubPath,
           crossOriginLoading = ''anonymous'' \<rparr>)"

subsection \<open>setMultiplePage\<close>

record minify_options =
  html5 :: bool
  collapseWhitespace :: bool
  preserveLineBreaks :: bool
  minifyCSS :: bool
  minifyJS :: bool
  removeComments :: bool

text \<open>
  The options object handed to \<^verbatim>\<open>HtmlWebpackPlugin\<close> for one page.  \<^verbatim>\<open>undefined\<close>
  (\<^verbatim>\<open>inlineSource\<close>) and \<^verbatim>\<open>false\<close> (\<^verbatim>\<open>minify\<close>) are \<^term>\<open>None\<close>; a chunk name is
  \<^term>\<open>None\<close> when the page name is \<^verbatim>\<open>null\<close>.  The field \<^verbatim>\<open>html_filename\<close> is the option
  \<^verbatim>\<open>filename\<close>.
\<close>

record html_plugin =
  inlineSource :: "string option"
  template :: string
  html_filename :: string
  chunks :: "string option list"
  assetsPrefix :: string
  inject :: bool
  minify :: "minify_options option"

text \<open>
  \<^verbatim>\<open>/\/pages\/(.*)/\<close>: the text after the first \<^verbatim>\<open>/pages/\<close>, up to the end of the
  line.
\<close>

definition pages_rx :: regex where
  "pages_rx = [Plain (lits ''/pages/''), Group [(Dot, StarG)]]"

definition pageName :: "string \<Rightarrow> string option" where
  "pageName entry =
     (case js_match pages_rx entry of None \<Rightarrow> None | Some cs \<Rightarrow> Some (cs ! 0))"

definition html_plugin_of ::
  "string \<Rightarrow> bool \<Rightarrow> bool \<Rightarrow> bool \<Rightarrow> string \<Rightarrow> string \<Rightarrow> string option \<Rightarrow> bool \<Rightarrow> html_plugin" where
  "html_plugin_of projectRoot minifyHtml injectOpt inlineCSS assetsPfx htmlPrefix pname isEntryFileExists =
     \<lparr> inlineSource = (if inlineCSS then Some (CHR 0x5C # ''.css$'') else None),
       template = path_join [projectRoot, ''src/pages/'' @ js_string pname @ ''/index.html''],
       html_filename =
         (if htmlPrefix \<noteq> [] then htmlPrefix @ ''/'' else []) @ js_string pname @ ''.html'',
       chunks = [pname],
       assetsPrefix = assetsPfx @ ''/'',
       inject = (injectOpt \<and> isEntryFileExists),
       minify =
         (if minifyHtml then
            Some \<lparr> html5 = True, collapseWhitespace = True, preserveLineBreaks = False,
                   minifyCSS = True, minifyJS = True, removeComments = False \<rparr>
          else None) \<rparr>"

text \<open>
  One round of the loop over the entries: the state is the pair of \<^verbatim>\<open>newEntry\<close> and
  \<^verbatim>\<open>htmlWebpackPlugins\<close>.  An assignment \<^verbatim>\<open>newEntry[pageName] = entryFile\<close> turns a
  \<^verbatim>\<open>null\<close> page name into the key \<^verbatim>\<open>"null"\<close>.
\<close>

definition page_step ::
  "string \<Rightarrow> (string \<Rightarrow> bool) \<Rightarrow> bool \<Rightarrow> bool \<Rightarrow> bool \<Rightarrow> string \<Rightarrow> string \<Rightarrow>
   js_object \<times> html_plugin list \<Rightarrow> string \<Rightarrow> js_object \<times> html_plugin list" where
  "page_step projectRoot existsSync minifyHtml injectOpt inlineCSS assetsPfx htmlPrefix st entry =
     (let entryFile = entry @ ''/init.js'';
          isEntryFileExists = existsSync entryFile;
          pname = pageName entry;
          newEntry = (if isEntryFileExists
                      then obj_set (js_string pname) entryFile (fst st) else fst st)
      in (newEntry,
          snd st @ [html_plugin_of projectRoot minifyHtml injectOpt inlineCSS assetsPfx htmlPrefix
                      pname isEntryFileExists]))"

definition setMultiplePage ::
  "string \<Rightarrow> (string \<Rightarrow> bool) \<Rightarrow> string list \<Rightarrow> bool \<Rightarrow> bool \<Rightarrow> bool \<Rightarrow> string \<Rightarrow> string \<Rightarrow>
   js_object \<times> html_plugin list" where
  "setMultiplePage projectRoot existsSync entries minifyHtml injectOpt inlineCSS assetsPfx htmlPrefix =
     foldl (page_step projectRoot existsSync minifyHtml injectOpt inlineCSS assetsPfx htmlPrefix)
       ([], []) entries"

definition newEntry :: "js_object \<times> html_plugin list \<Rightarrow> js_object" where
  "newEntry r = fst r"

definition htmlWebpackPlugins :: "js_object \<times> html_plugin list \<Rightarrow> html_plugin list" where
  "htmlWebpackPlugins r = snd r"


subsection \<open>setOffline\<close>

text \<open>
  \<^verbatim>\<open>pathMapper\<close>: where an asset goes in the archive.
\<close>

definition pathMapper :: "string \<Rightarrow> string \<Rightarrow> string \<Rightarrow> string \<Rightarrow> string" where
  "pathMapper htmlPrefix assetsPfx serverUrl assetPath =
     (let assetPath' =
            (if indexOf assetPath htmlPrefix \<noteq> - 1 then replace_str assetPath htmlPrefix []
             else if indexOf assetPath assetsPfx \<noteq> - 1 then replace_str assetPath assetsPfx []
             else assetPath)
      in path_join [replace_str serverUrl ''//'' [], assetPath'])"

text \<open>
  The character class \<^verbatim>\<open>["'`)]\<close> that ends a reference, and the two groups every
  reference pattern ends with: \<^verbatim>\<open>([^"'`)]+)(["'`)])\<close>.
\<close>

definition closers :: string where
  "closers = [CHR 0x22, CHR 0x27, CHR '')'', CHR 0x60]"

definition url_tail :: regex where
  "url_tail = [Group [(NoneOf closers, PlusG)], Group [(OneOf closers, One)]]"

definition base_rx :: regex where
  "base_rx = Plain (lits ''//11.url.cn/now/'') # url_tail"

text \<open>
  The second pattern is built at run time from the text of \<^verbatim>\<open>cdn\<close> and \<^verbatim>\<open>product\<close>:
  \<^verbatim>\<open>new RegExp(`//${cdn}/${product}/([^"'\)\`]+)(["'\`\)])`, 'g')\<close>.  In that text a
  dot is the class of all characters but line terminators, and the characters
  \<^verbatim>\<open>\ ^ $ * + ? ( ) [ ] { } |\<close> are syntax.  The model covers the texts without the
  latter (host names and product names are such); for any other text \<^verbatim>\<open>re_source\<close>
  is \<^term>\<open>None\<close>, and so is the result of the rewriter: nothing is claimed about it.
\<close>

definition re_syntax :: string where
  "re_syntax = CHR 0x5C # ''^$*+?()[]{}|''"

definition re_source :: "string \<Rightarrow> item list option" where
  "re_source s =
     (if \<exists>c \<in> set s. c \<in> set re_syntax then None
      else Some (map (\<lambda>c. if c = CHR ''.'' then (Dot, One) else (Lit c, One)) s))"

definition cdn_rx :: "string \<Rightarrow> string \<Rightarrow> regex option" where
  "cdn_rx cdn product =
     (case re_source cdn of
        None \<Rightarrow> None
      | Some c \<Rightarrow>
          (case re_source product of
             None \<Rightarrow> None
           | Some p \<Rightarrow> Some (Plain (lits ''//'' @ c @ lits ''/'' @ p @ lits ''/'') # url_tail)))"

definition crossorigin_rx :: regex where
  \<open>crossorigin_rx = [Plain (lits ''crossorigin="anonymous"'')]\<close>

definition bid_rx :: regex where
  "bid_rx = [Plain (lits ''?_bid=152'')]"

definition integrity_rx :: regex where
  \<open>integrity_rx =
     [Group (lits ''<script'' @ [(Dot, StarG)]),
      Plain (lits ''integrity="'' @ [(Dot, StarL)] @ lits ''"'')]\<close>

definition script_rx :: regex where
  "script_rx = [Group (lits ''<script'')]"

text \<open>The template \<^verbatim>\<open>`//${domain}/$1$2`\<close> of both domain rules.\<close>

definition domain_template :: "string \<Rightarrow> string" where
  "domain_template domain = ''//'' @ domain @ ''/$1$2''"

text \<open>
  The markup branch of \<^verbatim>\<open>beforeAddBuffer\<close> before the version marker goes in: the
  two domain rules, then the three removals.
\<close>

definition rewrite_domains :: "string \<Rightarrow> regex \<Rightarrow> string \<Rightarrow> string" where
  "rewrite_domains domain regex source =
     replace_all regex (domain_template domain)
       (replace_all base_rx (domain_template domain) source)"

definition strip_crossorigin :: "string \<Rightarrow> string" where
  "strip_crossorigin source = replace_all crossorigin_rx [] source"

definition strip_bid :: "string \<Rightarrow> string" where
  "strip_bid source = replace_all bid_rx [] source"

definition strip_integrity :: "string \<Rightarrow> string" where
  "strip_integrity source = replace_first integrity_rx ''$1'' source"

definition before_inject :: "string \<Rightarrow> regex \<Rightarrow> string \<Rightarrow> string" where
  "before_inject domain regex source =
     strip_integrity (strip_bid (strip_crossorigin (rewrite_domains domain regex source)))"

text \<open>
  \<^verbatim>\<open>JSON.stringify({version: Date.now()})\<close>, and the step that puts the inline script
  before the first \<^verbatim>\<open><script\<close>.
\<close>

definition version_json :: "nat \<Rightarrow> string" where
  \<open>version_json now = ''{"version":'' @ digits now @ ''}''\<close>

definition inject_version :: "nat \<Rightarrow> string \<Rightarrow> string" where
  "inject_version now source =
     replace_first script_rx (''<script>var pack = '' @ version_json now @ ''</script>$1'') source"

definition beforeAddBuffer ::
  "string \<Rightarrow> string \<Rightarrow> string \<Rightarrow> string \<Rightarrow> nat \<Rightarrow> string \<Rightarrow> string \<Rightarrow> string option" where
  "beforeAddBuffer htmlPrefix domain cdn product now source assetPath =
     (case cdn_rx cdn product of
        None \<Rightarrow> None
      | Some regex \<Rightarrow>
          if indexOf assetPath htmlPrefix \<noteq> - 1
          then Some (inject_version now (before_inject domain regex source))
          else Some (replace_all regex (domain_template domain) source))"

subsection \<open>setAlias\<close>

text \<open>
  The helpers \<^verbatim>\<open>listDir\<close>, \<^verbatim>\<open>isEmpty\<close> and \<^verbatim>\<open>merge\<close> come from \<^verbatim>\<open>./util\<close>, a file of
  the repository that is not among the sources at hand.  \<^verbatim>\<open>subdirs\<close> is the file
  system: the names of the directories directly in a directory.
\<close>

record dir_entry =
  name :: string
  dirPath :: string

text \<open>
  Modelled from the spec: \<^verbatim>\<open>listDir\<close> of \<^verbatim>\<open>./util\<close> is missing.  The spec: it lists the
  immediate subdirectories of the source directory, each with its name and its
  absolute directory path.
\<close>

definition listDir :: "(string \<Rightarrow> string list) \<Rightarrow> string \<Rightarrow> dir_entry list" where
  "listDir subdirs dir = map (\<lambda>n. \<lparr> name = n, dirPath = dir @ ''/'' @ n \<rparr>) (subdirs dir)"

text \<open>
  Modelled from the spec: \<^verbatim>\<open>isEmpty\<close> of \<^verbatim>\<open>./util\<close> is missing.  The spec: the
  overrides are empty or absent.
\<close>

fun isEmpty :: "js_object option \<Rightarrow> bool" where
  "isEmpty None = True"
| "isEmpty (Some al) = (al = [])"

text \<open>
  Modelled from the spec: \<^verbatim>\<open>merge\<close> of \<^verbatim>\<open>./util\<close> is missing.  The spec: the entries of
  the overrides (the first argument) are merged on top of the discovered entries
  (the second argument), an override winning where both have the key.
\<close>

definition merge :: "js_object \<Rightarrow> js_object \<Rightarrow> js_object" where
  "merge overrides discovered = foldl (\<lambda>acc (k, v). AList.update k v acc) discovered overrides"

text \<open>The loop of \<^verbatim>\<open>setAlias\<close>: two assignments for each directory.\<close>

definition alias_step :: "js_object \<Rightarrow> dir_entry \<Rightarrow> js_object" where
  "alias_step aliasObject dir =
     obj_set (name dir) (dirPath dir)
       (obj_set (CHR ''/'' # name dir) (dirPath dir) aliasObject)"

definition aliasObject :: "string \<Rightarrow> (string \<Rightarrow> string list) \<Rightarrow> js_object" where
  "aliasObject projectRoot subdirs =
     foldl alias_step [] (listDir subdirs (path_join [projectRoot, ''./src'']))"

definition setAlias ::
  "string \<Rightarrow> (string \<Rightarrow> string list) \<Rightarrow> js_object option \<Rightarrow> js_object" where
  "setAlias projectRoot subdirs alias =
     (if isEmpty alias then aliasObject projectRoot subdirs
      else merge (case alias of None \<Rightarrow> [] | Some al \<Rightarrow> al) (aliasObject projectRoot subdirs))"

section \<open>Auxiliary notions\<close>

text \<open>
  \<^verbatim>\<open>reaches qs s r\<close>: the pattern \<^verbatim>\<open>qs\<close> matches at some position of \<^verbatim>\<open>s\<close> and leaves
  the rest \<^verbatim>\<open>r\<close>.  \<^verbatim>\<open>slashes_before_closer s\<close> counts the slashes of \<^verbatim>\<open>s\<close> that stand
  before its last quote, backquote or closing parenthesis.
\<close>

definition reaches :: "item list \<Rightarrow> string \<Rightarrow> string \<Rightarrow> bool" where
  "reaches qs s r = (\<exists>s1 s2 sps2. s = s1 @ s2 \<and> rmatch qs s2 = Some (sps2, r))"

definition slashes_before_closer :: "string \<Rightarrow> nat" where
  "slashes_before_closer s =
     length (filter (\<lambda>c. c = CHR ''/'') (dropWhile (\<lambda>c. c \<notin> set closers) (rev s)))"

section \<open>Properties of the string and pattern functions\<close>

declare replace_from.simps [simp del]
declare digits.simps [simp del]

lemma split_first_SomeD: "split_first p s = Some (a, b) \<Longrightarrow> s = a @ p @ b"
proof (induction s arbitrary: a)
  case Nil
  then show ?case by (simp split: if_splits)
next
  case (Cons x xs)
  show ?case
  proof (cases "prefix p (x # xs)")
    case True
    with Cons.prems have "a = []" "b = drop (length p) (x # xs)" by auto
    moreover from True have "x # xs = p @ drop (length p) (x # xs)"
      by (metis append_eq_conv_conj prefixE)
    ultimately show ?thesis by simp
  next
    case False
    with Cons.prems obtain a' where "split_first p xs = Some (a', b)" "a = x # a'"
      by auto
    with Cons.IH show ?thesis by simp
  qed
qed

lemma split_first_None_iff: "split_first p s = None \<longleftrightarrow> \<not> sublist p s"
proof (induction s)
  case Nil
  show ?case by simp
next
  case (Cons x xs)
  show ?case
  proof (cases "prefix p (x # xs)")
    case True
    then show ?thesis by (auto dest: prefix_imp_sublist)
  next
    case False
    then show ?thesis using Cons.IH by (simp add: sublist_Cons_right)
  qed
qed

lemma indexOf_iff: "indexOf s p \<noteq> - 1 \<longleftrightarrow> sublist p s"
proof (cases "split_first p s")
  case None
  then show ?thesis using split_first_None_iff [of p s] by (simp add: indexOf_def)
next
  case (Some ab)
  then show ?thesis using split_first_None_iff [of p s]
    by (cases ab) (simp add: indexOf_def)
qed

lemma rmatch_lits:
  "rmatch (lits p @ qs) s =
     (if prefix p s
      then map_option (\<lambda>m. (map (\<lambda>c. [c]) p @ fst m, snd m)) (rmatch qs (drop (length p) s))
      else None)"
proof (induction p arbitrary: s)
  case Nil
  show ?case by (simp add: lits_def option.map_ident)
next
  case (Cons c p)
  have IH: "\<And>s. rmatch (lits p @ qs) s =
     (if prefix p s
      then map_option (\<lambda>m. (map (\<lambda>c. [c]) p @ fst m, snd m)) (rmatch qs (drop (length p) s))
      else None)" using Cons.IH by blast
  have l: "lits (c # p) @ qs = (Lit c, One) # (lits p @ qs)" by (simp add: lits_def)
  show ?case
  proof (cases s)
    case Nil
    then show ?thesis by (simp add: l)
  next
    case (Cons x xs)
    then show ?thesis
      by (auto simp: l IH option.map_comp comp_def split_def intro!: option.map_cong)
  qed
qed

lemma rmatch_star_greedy:
  "rmatch [(c, StarG)] s = Some ([takeWhile (cmatch c) s], dropWhile (cmatch c) s)"
  by (induction s) auto

lemma reaches_Cons: "reaches qs xs r \<Longrightarrow> reaches qs (x # xs) r"
  unfolding reaches_def by (metis append_Cons)

lemma reaches_here: "rmatch qs s = Some (sps, r) \<Longrightarrow> reaches qs s r"
  unfolding reaches_def by (metis append_Nil)

lemma add_span_snd: "add_span sp m = (sps, r) \<Longrightarrow> snd m = r"
  by (cases m) auto

lemma add_char_snd: "add_char x m = (sps, r) \<Longrightarrow> snd m = r"
proof (cases m)
  case (Pair a b)
  assume "add_char x m = (sps, r)"
  with Pair show ?thesis by (cases a) auto
qed

lemma map_option_add_span:
  "map_option (add_span sp) o1 = Some (sps, r) \<Longrightarrow> \<exists>sps'. o1 = Some (sps', r)"
  by (cases o1) (auto dest: add_span_snd simp: prod_eq_iff)

lemma map_option_add_char:
  "map_option (add_char x) o1 = Some (sps, r) \<Longrightarrow> \<exists>sps'. o1 = Some (sps', r)"
proof (cases o1)
  case None
  assume "map_option (add_char x) o1 = Some (sps, r)"
  with None show ?thesis by simp
next
  case (Some m)
  assume "map_option (add_char x) o1 = Some (sps, r)"
  with Some have "add_char x m = (sps, r)" by simp
  then have "snd m = r" by (rule add_char_snd)
  with Some show ?thesis by (cases m) auto
qed

lemma rmatch_append_reaches_aux:
  "rmatch pat s = Some (sps, r) \<Longrightarrow> ps @ qs = pat \<Longrightarrow> reaches qs s r"
proof (induction pat s arbitrary: ps sps rule: rmatch.induct)
  case (1 s)
  then show ?case by (simp add: reaches_here)
next
  case (2 c pat)
  then show ?case by simp
next
  case (3 c pat x xs)
  show ?case
  proof (cases ps)
    case Nil
    with "3.prems" show ?thesis by (simp add: reaches_here)
  next
    case (Cons p ps')
    with "3.prems" have pat: "ps' @ qs = pat" by simp
    from "3.prems" have c: "cmatch c x"
      and "map_option (add_span [x]) (rmatch pat xs) = Some (sps, r)"
      by (simp_all split: if_splits)
    then obtain sps' where "rmatch pat xs = Some (sps', r)"
      using map_option_add_span by blast
    with "3.IH" c pat show ?thesis by (blast intro: reaches_Cons)
  qed
next
  case (4 c pat)
  then show ?case by simp
next
  case (5 c pat x xs)
  show ?case
  proof (cases ps)
    case Nil
    with "5.prems" show ?thesis by (simp add: reaches_here)
  next
    case (Cons p ps')
    with "5.prems" have pat: "((c, StarG) # ps') @ qs = (c, StarG) # pat" by simp
    from "5.prems" have c: "cmatch c x"
      and "map_option (add_char x) (rmatch ((c, StarG) # pat) xs) = Some (sps, r)"
      by (simp_all split: if_splits)
    then obtain sps' where "rmatch ((c, StarG) # pat) xs = Some (sps', r)"
      using map_option_add_char by blast
    with "5.IH" c pat show ?thesis by (blast intro: reaches_Cons)
  qed
next
  case (6 c pat)
  show ?case
  proof (cases ps)
    case Nil
    with "6.prems" show ?thesis by (simp add: reaches_here)
  next
    case (Cons p ps')
    with "6.prems" have pat: "ps' @ qs = pat" by simp
    from "6.prems" have "map_option (add_span []) (rmatch pat []) = Some (sps, r)"
      by simp
    then obtain sps' where "rmatch pat [] = Some (sps', r)"
      using map_option_add_span by blast
    with "6.IH" pat show ?thesis by blast
  qed
next
  case (7 c pat x xs)
  show ?case
  proof (cases ps)
    case Nil
    with "7.prems" show ?thesis by (simp add: reaches_here)
  next
    case (Cons p ps')
    with "7.prems" have pat: "ps' @ qs = pat"
      and pat': "((c, StarG) # ps') @ qs = (c, StarG) # pat" by simp_all
    show ?thesis
    proof (cases "cmatch c x")
      case True
      show ?thesis
      proof (cases "rmatch ((c, StarG) # pat) xs")
        case None
        with True "7.prems"
        have "map_option (add_span []) (rmatch pat (x # xs)) = Some (sps, r)" by simp
        then obtain sps' where "rmatch pat (x # xs) = Some (sps', r)"
          using map_option_add_span by blast
        with "7.IH"(2) True None pat show ?thesis by blast
      next
        case (Some m)
        with True "7.prems" have "add_char x m = (sps, r)" by simp
        then have "snd m = r" by (rule add_char_snd)
        with Some have "rmatch ((c, StarG) # pat) xs = Some (fst m, r)" by (cases m) simp
        with "7.IH"(1) True pat' show ?thesis by (blast intro: reaches_Cons)
      qed
    next
      case False
      with "7.prems"
      have "map_option (add_span []) (rmatch pat (x # xs)) = Some (sps, r)" by simp
      then obtain sps' where "rmatch pat (x # xs) = Some (sps', r)"
        using map_option_add_span by blast
      with "7.IH"(3) False pat show ?thesis by blast
    qed
  qed
next
  case (8 c pat)
  show ?case
  proof (cases ps)
    case Nil
    with "8.prems" show ?thesis by (simp add: reaches_here)
  next
    case (Cons p ps')
    with "8.prems" have pat: "ps' @ qs = pat" by simp
    from "8.prems" have "map_option (add_span []) (rmatch pat []) = Some (sps, r)"
      by simp
    then obtain sps' where "rmatch pat [] = Some (sps', r)"
      using map_option_add_span by blast
    with "8.IH" pat show ?thesis by blast
  qed
next
  case (9 c pat x xs)
  show ?case
  proof (cases ps)
    case Nil
    with "9.prems" show ?thesis by (simp add: reaches_here)
  next
    case (Cons p ps')
    with "9.prems" have pat: "ps' @ qs = pat"
      and pat': "((c, StarL) # ps') @ qs = (c, StarL) # pat" by simp_all
    show ?thesis
    proof (cases "rmatch pat (x # xs)")
      case (Some m)
      with "9.prems" have "add_span [] m = (sps, r)" by simp
      then have "snd m = r" by (rule add_span_snd)
      with Some have "rmatch pat (x # xs) = Some (fst m, r)" by (cases m) simp
      with "9.IH"(1) pat show ?thesis by blast
    next
      case None
      with "9.prems" have c: "cmatch c x"
        and "map_option (add_char x) (rmatch ((c, StarL) # pat) xs) = Some (sps, r)"
        by (simp_all split: if_splits)
      then obtain sps' where "rmatch ((c, StarL) # pat) xs = Some (sps', r)"
        using map_option_add_char by blast
      with "9.IH"(2) None c pat' show ?thesis by (blast intro: reaches_Cons)
    qed
  qed
qed

lemma rmatch_append_reaches:
  "rmatch (ps @ qs) s = Some (sps, r) \<Longrightarrow> reaches qs s r"
  by (rule rmatch_append_reaches_aux) simp_all

lemma rsearch_lits_Some:
  "split_first p s = Some (a, b) \<Longrightarrow> rmatch qs b = Some (sps, r) \<Longrightarrow>
     rsearch (lits p @ qs) s = Some (a, map (\<lambda>c. [c]) p @ sps, r)"
proof (induction s arbitrary: a)
  case Nil
  then have "p = []" "a = []" "b = []" by (simp_all split: if_splits)
  with Nil.prems(2) show ?case by (simp add: lits_def)
next
  case (Cons x xs)
  show ?case
  proof (cases "prefix p (x # xs)")
    case True
    with Cons.prems(1) have "a = []" "b = drop (length p) (x # xs)" by auto
    with True Cons.prems(2) show ?thesis by (simp add: rmatch_lits)
  next
    case False
    with Cons.prems(1) obtain a' where a': "split_first p xs = Some (a', b)" "a = x # a'"
      by auto
    from False have "rmatch (lits p @ qs) (x # xs) = None" by (simp add: rmatch_lits)
    with Cons.IH [OF a'(1) Cons.prems(2)] a'(2) show ?thesis by simp
  qed
qed

lemma rsearch_None:
  "(\<And>t. suffix t s \<Longrightarrow> rmatch ps t = None) \<Longrightarrow> rsearch ps s = None"
proof (induction s)
  case Nil
  then have "rmatch ps [] = None" by simp
  then show ?case by simp
next
  case (Cons x xs)
  have "rmatch ps (x # xs) = None" using Cons.prems by simp
  moreover have "rsearch ps xs = None"
    using Cons.IH Cons.prems by (simp add: suffix_Cons)
  ultimately show ?case by simp
qed

lemma replace_from_no_match:
  "(\<And>t. suffix t s \<Longrightarrow> rmatch (flat rx) t = None) \<Longrightarrow> replace_from rx tm b s = s"
proof (induction s arbitrary: b)
  case Nil
  then have "rmatch (flat rx) [] = None" by simp
  then show ?case by (simp add: replace_from.simps [of rx tm b "[]"])
next
  case (Cons x xs)
  have "rmatch (flat rx) (x # xs) = None" using Cons.prems by simp
  moreover have "replace_from rx tm (b @ [x]) xs = xs"
    using Cons.IH Cons.prems by (simp add: suffix_Cons)
  ultimately show ?case by (simp add: replace_from.simps [of rx tm b "x # xs"])
qed

lemma rmatch_lits_absent:
  "\<not> sublist p s \<Longrightarrow> suffix t s \<Longrightarrow> rmatch (lits p @ qs) t = None"
proof -
  assume a: "\<not> sublist p s" and t: "suffix t s"
  have "\<not> prefix p t"
  proof
    assume "prefix p t"
    then have "sublist p t" by (rule prefix_imp_sublist)
    with t have "sublist p s" by (meson sublist_order.order_trans suffix_imp_sublist)
    with a show False by simp
  qed
  then show ?thesis by (simp add: rmatch_lits)
qed

lemma replace_all_lits_absent:
  "\<not> sublist p s \<Longrightarrow> replace_all [Plain (lits p)] tm s = s"
proof -
  assume a: "\<not> sublist p s"
  have "\<And>t. suffix t s \<Longrightarrow> rmatch (flat [Plain (lits p)]) t = None"
    using rmatch_lits_absent [OF a, where qs = "[]"] by (simp add: flat_def)
  then show ?thesis unfolding replace_all_def by (rule replace_from_no_match)
qed

lemma rmatch_reaches_lits_absent:
  assumes "\<not> sublist p s" and "suffix t s"
  shows "rmatch (ps @ lits p @ qs) t = None"
proof (cases "rmatch (ps @ lits p @ qs) t")
  case None
  then show ?thesis .
next
  case (Some m)
  then have "rmatch (ps @ lits p @ qs) t = Some (fst m, snd m)" by simp
  then have "reaches (lits p @ qs) t (snd m)" by (rule rmatch_append_reaches)
  then obtain s1 s2 sps2 where t: "t = s1 @ s2"
    and m: "rmatch (lits p @ qs) s2 = Some (sps2, snd m)"
    unfolding reaches_def by blast
  from t assms(2) have "suffix s2 s" by (metis suffix_append suffix_order.order_refl suffix_order.order_trans suffixI)
  with assms(1) have "rmatch (lits p @ qs) s2 = None" by (rule rmatch_lits_absent)
  with m show ?thesis by simp
qed

lemma strip_crossorigin_absent:
  \<open>\<not> sublist ''crossorigin="anonymous"'' s \<Longrightarrow> strip_crossorigin s = s\<close>
  unfolding strip_crossorigin_def crossorigin_rx_def by (rule replace_all_lits_absent)

lemma strip_bid_absent: "\<not> sublist ''?_bid=152'' s \<Longrightarrow> strip_bid s = s"
  unfolding strip_bid_def bid_rx_def by (rule replace_all_lits_absent)

lemma strip_integrity_absent:
  assumes \<open>\<not> sublist ''integrity="'' s\<close>
  shows "strip_integrity s = s"
proof -
  have f: \<open>flat integrity_rx =
      (lits ''<script'' @ [(Dot, StarG)]) @ lits ''integrity="'' @ ([(Dot, StarL)] @ lits ''"'')\<close>
    by (simp add: integrity_rx_def flat_def)
  have "rsearch (flat integrity_rx) s = None"
    unfolding f using assms by (intro rsearch_None rmatch_reaches_lits_absent)
  then show ?thesis by (simp add: strip_integrity_def replace_first_def)
qed

lemma subst_plain_prefix:
  "CHR ''$'' \<notin> set a \<Longrightarrow> subst (a @ t) m b af cs = a @ subst t m b af cs"
proof (induction a)
  case Nil
  show ?case by simp
next
  case (Cons x a)
  then have x: "x \<noteq> CHR ''$''" and a: "CHR ''$'' \<notin> set a" by auto
  show ?case
  proof (cases "a @ t")
    case Nil
    then show ?thesis by simp
  next
    case (Cons u us)
    have "subst (x # u # us) m b af cs = x # subst (u # us) m b af cs"
      using x by simp
    with Cons Cons.IH [OF a] show ?thesis by simp
  qed
qed

lemma subst_group1: "subst ''$1'' m b af (c # cs) = c"
  by (simp add: is_digit_def one_digit_def digit_val_def)

lemma digit_char_in: "d < 10 \<Longrightarrow> digit_char d \<in> set ''0123456789''"
  unfolding digit_char_def by (rule nth_mem) simp

lemma digits_set: "set (digits n) \<subseteq> set ''0123456789''"
proof (induction n rule: digits.induct)
  case (1 n)
  show ?case
  proof (cases "n < 10")
    case True
    then show ?thesis using digit_char_in [of n] by (simp add: digits.simps [of n])
  next
    case False
    have "n mod 10 < 10" by simp
    then have "digit_char (n mod 10) \<in> set ''0123456789''" by (rule digit_char_in)
    with False "1.IH" show ?thesis by (simp add: digits.simps [of n])
  qed
qed

lemma digits_no_dollar: "CHR ''$'' \<notin> set (digits n)"
  using digits_set [of n] by auto

lemma digit_val_char: "d < 10 \<Longrightarrow> digit_val (digit_char d) = d"
proof -
  assume "d < 10"
  then have "d \<in> {0, 1, 2, 3, 4, 5, 6, 7, 8, 9}" by auto
  then show ?thesis
    by (auto simp: digit_char_def digit_val_def)
qed

lemma digits_value: "foldl (\<lambda>acc c. 10 * acc + digit_val c) 0 (digits n) = n"
proof (induction n rule: digits.induct)
  case (1 n)
  show ?case
  proof (cases "n < 10")
    case True
    then show ?thesis by (simp add: digits.simps [of n] digit_val_char)
  next
    case False
    with "1.IH" show ?thesis by (simp add: digits.simps [of n] digit_val_char)
  qed
qed

lemma digits_inj: "digits a = digits b \<Longrightarrow> a = b"
  by (metis digits_value)

lemma version_json_inj: "version_json a = version_json b \<Longrightarrow> a = b"
  by (simp add: version_json_def digits_inj)

lemma version_json_no_dollar: "CHR ''$'' \<notin> set (version_json n)"
  using digits_no_dollar [of n] by (simp add: version_json_def)

text \<open>The inline script that carries the version.\<close>

lemma inject_version_absent:
  "\<not> sublist ''<script'' s \<Longrightarrow> inject_version now s = s"
proof -
  assume a: "\<not> sublist ''<script'' s"
  have "rsearch (lits ''<script'' @ []) s = None"
    using a by (intro rsearch_None rmatch_lits_absent)
  then show ?thesis by (simp add: inject_version_def replace_first_def script_rx_def flat_def)
qed

lemma inject_version_at:
  assumes "split_first ''<script'' s = Some (a, b)"
  shows "inject_version now s =
           a @ ''<script>var pack = '' @ version_json now @ ''</script>'' @ ''<script'' @ b"
proof -
  define pre where "pre = ''<script>var pack = '' @ version_json now @ ''</script>''"
  define tm where "tm = pre @ ''$1''"
  have r: "rsearch (lits ''<script'' @ []) s = Some (a, map (\<lambda>c. [c]) ''<script'' @ [], b)"
    using assms by (rule rsearch_lits_Some) simp
  have d: "CHR ''$'' \<notin> set pre"
    using version_json_no_dollar [of now] by (simp add: pre_def)
  have e: "subst tm ''<script'' a b [''<script''] = pre @ ''<script''"
    unfolding tm_def subst_plain_prefix [OF d] by (simp only: subst_group1)
  have "inject_version now s = replace_first script_rx tm s"
    by (simp add: inject_version_def tm_def pre_def)
  also have "\<dots> = a @ subst tm ''<script'' a b [''<script''] @ b"
    using r by (simp add: replace_first_def script_rx_def flat_def lits_def)
  also have "\<dots> = a @ pre @ ''<script'' @ b" by (simp only: e append_assoc)
  finally show ?thesis by (simp add: pre_def)
qed

lemma rmatch_lits_SomeD:
  assumes "rmatch (lits p @ qs) s = Some (sps, r)"
  shows "\<exists>b sps'. s = p @ b \<and> rmatch qs b = Some (sps', r)"
proof -
  from assms have p: "prefix p s"
    by (simp add: rmatch_lits split: if_splits)
  then obtain b where b: "s = p @ b" by (auto simp: prefix_def)
  from assms p b obtain m where "rmatch qs b = Some m" "snd m = r"
    by (auto simp: rmatch_lits)
  then have "rmatch qs b = Some (fst m, r)" by (cases m) simp
  with b show ?thesis by blast
qed

lemma reaches_lits_D:
  assumes "reaches (lits p @ qs) s r"
  shows "\<exists>a b sps'. s = a @ p @ b \<and> rmatch qs b = Some (sps', r)"
proof -
  from assms obtain s1 s2 sps2 where s: "s = s1 @ s2"
    and m: "rmatch (lits p @ qs) s2 = Some (sps2, r)"
    unfolding reaches_def by blast
  from rmatch_lits_SomeD [OF m] obtain b sps' where "s2 = p @ b" "rmatch qs b = Some (sps', r)"
    by blast
  with s show ?thesis by blast
qed

lemma url_tail_D:
  assumes "rmatch [(NoneOf cs, PlusG), (OneOf cs, One)] s = Some (sps, r)"
  shows "\<exists>g q. s = g @ q # r \<and> q \<in> set cs"
proof -
  from assms have "rmatch ([(NoneOf cs, PlusG)] @ [(OneOf cs, One)]) s = Some (sps, r)" by simp
  then have "reaches [(OneOf cs, One)] s r" by (rule rmatch_append_reaches)
  then obtain g s2 sps2 where s: "s = g @ s2"
    and m: "rmatch [(OneOf cs, One)] s2 = Some (sps2, r)"
    unfolding reaches_def by blast
  from m obtain q where "s2 = q # r" "q \<in> set cs"
    by (cases s2) (auto split: if_splits)
  with s show ?thesis by blast
qed

lemma cdn_rx_flat:
  assumes "cdn_rx cdn product = Some regex"
  shows "\<exists>c p. flat regex =
           lits ''//'' @ (c @ lits ''/'' @ (p @ lits ''/'' @
             [(NoneOf closers, PlusG), (OneOf closers, One)]))"
proof -
  from assms obtain c p where
    "regex = Plain (lits ''//'' @ c @ lits ''/'' @ p @ lits ''/'') # url_tail"
    by (auto simp: cdn_rx_def split: option.splits)
  then have "flat regex =
      lits ''//'' @ (c @ lits ''/'' @ (p @ lits ''/'' @
        [(NoneOf closers, PlusG), (OneOf closers, One)]))"
    by (simp add: flat_def url_tail_def)
  then show ?thesis by blast
qed

lemma cdn_match_shape:
  assumes "cdn_rx cdn product = Some regex" and "rmatch (flat regex) t = Some (sps, r)"
  shows "\<exists>u q. t = u @ q # r \<and> q \<in> set closers \<and> 4 \<le> length (filter (\<lambda>c. c = CHR ''/'') u)"
proof -
  let ?tail = "[(NoneOf closers, PlusG), (OneOf closers, One)]"
  from cdn_rx_flat [OF assms(1)] obtain c p where
    f: "flat regex = lits ''//'' @ (c @ lits ''/'' @ (p @ lits ''/'' @ ?tail))" by blast
  from assms(2) [unfolded f] obtain b1 sps1 where
    t: "t = ''//'' @ b1" and m1: "rmatch (c @ lits ''/'' @ (p @ lits ''/'' @ ?tail)) b1 = Some (sps1, r)"
    using rmatch_lits_SomeD by blast
  from m1 have "reaches (lits ''/'' @ (p @ lits ''/'' @ ?tail)) b1 r"
    by (rule rmatch_append_reaches)
  then obtain a2 b2 sps2 where
    b1: "b1 = a2 @ ''/'' @ b2" and m2: "rmatch (p @ lits ''/'' @ ?tail) b2 = Some (sps2, r)"
    using reaches_lits_D by blast
  from m2 have "reaches (lits ''/'' @ ?tail) b2 r"
    by (rule rmatch_append_reaches)
  then obtain a3 b3 sps3 where
    b2: "b2 = a3 @ ''/'' @ b3" and m3: "rmatch ?tail b3 = Some (sps3, r)"
    using reaches_lits_D by blast
  from url_tail_D [OF m3] obtain g q where b3: "b3 = g @ q # r" and q: "q \<in> set closers"
    by blast
  let ?u = "''//'' @ a2 @ ''/'' @ a3 @ ''/'' @ g"
  have "t = ?u @ q # r" using t b1 b2 b3 by simp
  moreover have "4 \<le> length (filter (\<lambda>c. c = CHR ''/'') ?u)" by simp
  ultimately show ?thesis using q by blast
qed

lemma dropWhile_keeps:
  "\<not> P q \<Longrightarrow> \<exists>z. dropWhile P (ys @ q # xs) = z @ q # xs"
proof (induction ys)
  case Nil
  then show ?case by simp
next
  case (Cons y ys)
  show ?case
  proof (cases "P y")
    case True
    with Cons show ?thesis by simp
  next
    case False
    then have "dropWhile P ((y # ys) @ q # xs) = (y # ys) @ q # xs" by simp
    then show ?thesis by blast
  qed
qed

lemma slashes_before_closer_ge:
  assumes "suffix t s" and "t = u @ q # r" and "q \<in> set closers"
  shows "length (filter (\<lambda>c. c = CHR ''/'') u) \<le> slashes_before_closer s"
proof -
  from assms(1,2) obtain pre where s: "s = pre @ u @ q # r" by (auto simp: suffix_def)
  have "rev s = rev r @ q # (rev u @ rev pre)" by (simp add: s)
  moreover from assms(3) have "\<not> q \<notin> set closers" by simp
  ultimately obtain z where
    "dropWhile (\<lambda>c. c \<notin> set closers) (rev s) = z @ q # (rev u @ rev pre)"
    using dropWhile_keeps [of "\<lambda>c. c \<notin> set closers" q "rev r" "rev u @ rev pre"] by auto
  then have "slashes_before_closer s =
      length (filter (\<lambda>c. c = CHR ''/'') (z @ [q])) +
      length (filter (\<lambda>c. c = CHR ''/'') (rev u)) +
      length (filter (\<lambda>c. c = CHR ''/'') (rev pre))"
    by (simp add: slashes_before_closer_def)
  moreover have "length (filter (\<lambda>c. c = CHR ''/'') (rev u)) = length (filter (\<lambda>c. c = CHR ''/'') u)"
    by (simp add: rev_filter [symmetric])
  ultimately show ?thesis by linarith
qed

lemma cdn_no_match:
  assumes "cdn_rx cdn product = Some regex" and "slashes_before_closer s < 4" and "suffix t s"
  shows "rmatch (flat regex) t = None"
proof (cases "rmatch (flat regex) t")
  case None
  then show ?thesis .
next
  case (Some m)
  then have "rmatch (flat regex) t = Some (fst m, snd m)" by simp
  from cdn_match_shape [OF assms(1) this] obtain u q where
    "t = u @ q # snd m" "q \<in> set closers" "4 \<le> length (filter (\<lambda>c. c = CHR ''/'') u)"
    by blast
  with slashes_before_closer_ge [OF assms(3)] assms(2) show ?thesis by fastforce
qed

lemma cdn_replace_few_slashes:
  assumes "cdn_rx cdn product = Some regex" and "slashes_before_closer s < 4"
  shows "replace_all regex tm s = s"
  unfolding replace_all_def
  using cdn_no_match [OF assms] by (rule replace_from_no_match)

lemma cdn_replace_no_double_slash:
  assumes "cdn_rx cdn product = Some regex" and "\<not> sublist ''//'' s"
  shows "replace_all regex tm s = s"
proof -
  from cdn_rx_flat [OF assms(1)] obtain qs where f: "flat regex = lits ''//'' @ qs" by blast
  have "\<And>t. suffix t s \<Longrightarrow> rmatch (flat regex) t = None"
    unfolding f using assms(2) by (rule rmatch_lits_absent)
  then show ?thesis unfolding replace_all_def by (rule replace_from_no_match)
qed

lemma split_first_is_first:
  "split_first p s = Some (a, b) \<Longrightarrow> p \<noteq> [] \<Longrightarrow> \<not> sublist p (a @ butlast p)"
proof (induction s arbitrary: a)
  case Nil
  then show ?case by (simp split: if_splits)
next
  case (Cons x xs)
  show ?case
  proof (cases "prefix p (x # xs)")
    case True
    with Cons.prems have a: "a = []" by auto
    from Cons.prems(2) have "length (butlast p) < length p" by simp
    then have "\<not> sublist p (butlast p)"
      by (metis leD sublist_length_le)
    with a show ?thesis by simp
  next
    case False
    with Cons.prems obtain a' where a': "split_first p xs = Some (a', b)" "a = x # a'"
      by auto
    from a'(1) have xs: "xs = a' @ p @ b" by (rule split_first_SomeD)
    have "x # xs = (x # a' @ butlast p) @ (last p # b)"
      unfolding xs using Cons.prems(2) by simp
    then have le: "prefix (x # a' @ butlast p) (x # xs)" by (metis prefixI)
    have np: "\<not> prefix p (x # a' @ butlast p)"
    proof
      assume "prefix p (x # a' @ butlast p)"
      from this le have "prefix p (x # xs)" by (rule prefix_order.trans)
      with False show False by simp
    qed
    from Cons.IH [OF a'(1) Cons.prems(2)] np a'(2) show ?thesis
      by (simp add: sublist_Cons_right)
  qed
qed

lemma sublist_split_first:
  "sublist p s \<Longrightarrow> \<exists>a b. split_first p s = Some (a, b)"
  using split_first_None_iff [of p s] by (cases "split_first p s") auto

lemma pageName_eq:
  "pageName entry =
     (case split_first ''/pages/'' entry of
        None \<Rightarrow> None
      | Some (a, b) \<Rightarrow> Some (takeWhile (\<lambda>c. c \<noteq> CHR 0x0A \<and> c \<noteq> CHR 0x0D) b))"
proof (cases "split_first ''/pages/'' entry")
  case None
  then have "\<not> sublist ''/pages/'' entry" by (simp add: split_first_None_iff)
  then have "rsearch (lits ''/pages/'' @ [(Dot, StarG)]) entry = None"
    by (intro rsearch_None rmatch_lits_absent)
  with None show ?thesis by (simp add: pageName_def js_match_def pages_rx_def flat_def)
next
  case (Some ab)
  obtain a b where ab: "ab = (a, b)" by (cases ab)
  have d: "cmatch Dot = (\<lambda>c. c \<noteq> CHR 0x0A \<and> c \<noteq> CHR 0x0D)" by (rule ext) simp
  from Some ab have "rsearch (lits ''/pages/'' @ [(Dot, StarG)]) entry
      = Some (a, map (\<lambda>c. [c]) ''/pages/'' @ [takeWhile (cmatch Dot) b], dropWhile (cmatch Dot) b)"
    by (intro rsearch_lits_Some) (simp_all add: rmatch_star_greedy)
  with Some ab show ?thesis
    by (simp add: pageName_def js_match_def pages_rx_def flat_def lits_def d)
qed

lemma pageName_None_iff: "pageName entry = None \<longleftrightarrow> \<not> sublist ''/pages/'' entry"
  using split_first_None_iff [of "''/pages/''" entry]
  by (auto simp: pageName_eq split: option.splits)

lemma plugins_foldl:
  "snd (foldl (page_step root ex mh io ic ap hp) st es) =
     snd st @ map (\<lambda>e. html_plugin_of root mh io ic ap hp (pageName e) (ex (e @ ''/init.js''))) es"
  by (induction es arbitrary: st) (simp_all add: page_step_def Let_def)

lemma obj_set_keys:
  "fst ` set (obj_set k v obj) = (if k = ''__proto__'' then {} else {k}) \<union> fst ` set obj"
  by (simp add: obj_set_def dom_update)



lemma set_update_cases:
  "(k, v) \<in> set (AList.update k' v' al) \<Longrightarrow> (k, v) = (k', v') \<or> (k, v) \<in> set al"
  by (induction al) (auto split: if_splits)

lemma set_obj_set_cases:
  "(k, v) \<in> set (obj_set k' v' obj) \<Longrightarrow>
     ((k, v) = (k', v') \<and> k' \<noteq> ''__proto__'') \<or> (k, v) \<in> set obj"
  using set_update_cases [of k v k' v' obj] by (auto simp: obj_set_def split: if_splits)

lemma keys_foldl:
  "fst ` set (fst (foldl (page_step root ex mh io ic ap hp) st es)) =
     fst ` set (fst st) \<union>
     {js_string (pageName e) | e.
        e \<in> set es \<and> ex (e @ ''/init.js'') \<and> js_string (pageName e) \<noteq> ''__proto__''}"
proof (induction es arbitrary: st)
  case Nil
  show ?case by simp
next
  case (Cons e es)
  have "fst ` set (fst (page_step root ex mh io ic ap hp st e)) =
      fst ` set (fst st) \<union>
      (if ex (e @ ''/init.js'') \<and> js_string (pageName e) \<noteq> ''__proto__''
       then {js_string (pageName e)} else {})"
    by (simp add: page_step_def Let_def obj_set_keys)
  then show ?case unfolding foldl_Cons Cons.IH by auto
qed

lemma entries_foldl:
  assumes "(k, v) \<in> set (fst (foldl (page_step root ex mh io ic ap hp) st es))"
  shows "(k, v) \<in> set (fst st) \<or>
         (\<exists>e\<in>set es. k = js_string (pageName e) \<and> v = e @ ''/init.js'' \<and> ex v)"
  using assms
proof (induction es arbitrary: st)
  case Nil
  then show ?case by simp
next
  case (Cons e es)
  from Cons.prems have "(k, v) \<in> set (fst (foldl (page_step root ex mh io ic ap hp)
      (page_step root ex mh io ic ap hp st e) es))" by simp
  from Cons.IH [OF this] show ?case
  proof
    assume s: "(k, v) \<in> set (fst (page_step root ex mh io ic ap hp st e))"
    show ?thesis
    proof (cases "ex (e @ ''/init.js'')")
      case False
      with s show ?thesis by (simp add: page_step_def Let_def)
    next
      case True
      with s have "(k, v) \<in> set (obj_set (js_string (pageName e)) (e @ ''/init.js'') (fst st))"
        by (simp add: page_step_def Let_def)
      then have "(k, v) = (js_string (pageName e), e @ ''/init.js'') \<or> (k, v) \<in> set (fst st)"
        using set_obj_set_cases by blast
      with True show ?thesis by auto
    qed
  next
    assume "\<exists>e\<in>set es. k = js_string (pageName e) \<and> v = e @ ''/init.js'' \<and> ex v"
    then show ?thesis by auto
  qed
qed

lemma merge_lookup:
  "distinct (map fst ov) \<Longrightarrow>
     map_of (merge ov disc) k = (case map_of ov k of Some v \<Rightarrow> Some v | None \<Rightarrow> map_of disc k)"
  unfolding merge_def
proof (induction ov arbitrary: disc)
  case Nil
  show ?case by simp
next
  case (Cons p ov)
  obtain k' v' where p: "p = (k', v')" by (cases p)
  from Cons.prems p have d: "distinct (map fst ov)" and n: "map_of ov k' = None"
    by (auto simp: map_of_eq_None_iff)
  show ?case
    using Cons.IH [OF d, of "AList.update k' v' disc"] n
    by (simp add: p update_conv' split: option.splits)
qed







lemma prefix_short:
  "prefix p (u @ v) \<Longrightarrow> length p \<le> length u \<Longrightarrow> prefix p u"
proof -
  assume a: "prefix p (u @ v)" and l: "length p \<le> length u"
  from a obtain w where "u @ v = p @ w" by (auto simp: prefix_def)
  then have "take (length p) (u @ v) = p" by simp
  with l have "take (length p) u = p" by simp
  then show ?thesis by (metis take_is_prefix)
qed

lemma split_first_at:
  "p \<noteq> [] \<Longrightarrow> \<not> sublist p (a @ butlast p) \<Longrightarrow> split_first p (a @ p @ b) = Some (a, b)"
proof (induction a)
  case Nil
  then obtain y ys where p: "p = y # ys" by (cases p) auto
  show ?case unfolding p by simp
next
  case (Cons x a)
  from Cons.prems(2) have np: "\<not> prefix p (x # a @ butlast p)"
    and ns: "\<not> sublist p (a @ butlast p)"
    by (simp_all add: sublist_Cons_right)
  have e: "x # a @ p @ b = (x # a @ butlast p) @ (last p # b)"
    using Cons.prems(1) by simp
  have l: "length p \<le> length (x # a @ butlast p)" by simp
  have n: "\<not> prefix p (x # a @ p @ b)"
  proof
    assume "prefix p (x # a @ p @ b)"
    then have "prefix p ((x # a @ butlast p) @ (last p # b))" by (simp only: e)
    from this l have "prefix p (x # a @ butlast p)" by (rule prefix_short)
    with np show False by simp
  qed
  have "split_first p ((x # a) @ p @ b) =
      map_option (\<lambda>(a, b). (x # a, b)) (split_first p (a @ p @ b))"
    using n by simp
  also have "\<dots> = Some (x # a, b)"
    by (simp only: Cons.IH [OF Cons.prems(1) ns] option.map prod.case)
  finally show ?case .
qed

lemma pageName_under_pages:
  assumes "\<not> sublist ''/pages/'' (root @ ''/pages'')"
    and "CHR 0x0A \<notin> set n" and "CHR 0x0D \<notin> set n"
  shows "pageName (root @ ''/pages/'' @ n) = Some n"
proof -
  from assms(1) have "\<not> sublist ''/pages/'' (root @ butlast ''/pages/'')" by simp
  then have "split_first ''/pages/'' (root @ ''/pages/'' @ n) = Some (root, n)"
    by (intro split_first_at) simp
  moreover have "takeWhile (\<lambda>c. c \<noteq> CHR 0x0A \<and> c \<noteq> CHR 0x0D) n = n"
    using assms(2,3) by (intro takeWhile_eq_all_conv [THEN iffD2]) auto
  ultimately show ?thesis by (simp only: pageName_eq option.case prod.case)
qed

lemma sublist_skip:
  "x \<notin> set m \<Longrightarrow> sublist (x # p) (m @ r) \<Longrightarrow> sublist (x # p) r"
proof (induction m)
  case Nil
  then show ?case by simp
next
  case (Cons y m)
  from Cons.prems(1) have "y \<noteq> x" and "x \<notin> set m" by auto
  with Cons.prems(2) have "sublist (x # p) (m @ r)"
    by (auto simp: sublist_Cons_right)
  with Cons.IH \<open>x \<notin> set m\<close> show ?case by blast
qed

lemma sublist_ConsI: "sublist p s \<Longrightarrow> sublist p (x # s)"
  by (simp add: sublist_Cons_right)

lemma sublist_appendI2: "sublist p s \<Longrightarrow> sublist p (t @ s)"
  by (metis sublist_append_rightI sublist_order.order.trans sublist_appendI suffix_imp_sublist suffixI)

lemma rmatch_lits_only:
  "rmatch (lits p) s =
     (if prefix p s then Some (map (\<lambda>c. [c]) p, drop (length p) s) else None)"
  using rmatch_lits [of p "[]" s] by simp

text \<open>A removal of a text without \<^verbatim>\<open><\<close> that cannot begin inside \<^verbatim>\<open>script\<close> keeps \<^verbatim>\<open><script\<close>.\<close>

lemma removal_keeps_script:
  assumes l: "l \<noteq> []" "CHR ''<'' \<notin> set l"
    and k: "\<And>b rest. replace_from [Plain (lits l)] [] b (''script'' @ rest)
              = ''script'' @ replace_from [Plain (lits l)] [] (b @ ''script'') rest"
  shows "sublist ''<script'' s \<Longrightarrow> sublist ''<script'' (replace_from [Plain (lits l)] [] b s)"
proof (induction "length s" arbitrary: s b rule: less_induct)
  case less
  let ?rx = "[Plain (lits l)]"
  have f: "flat ?rx = lits l" by (simp add: flat_def)
  show ?case
  proof (cases "prefix l s")
    case True
    then obtain r where s: "s = l @ r" by (auto simp: prefix_def)
    then have m: "rmatch (flat ?rx) s = Some (map (\<lambda>c. [c]) l, r)"
      unfolding f by (simp add: rmatch_lits_only)
    have c: "concat (map (\<lambda>c. [c]) l) = l" by (induction l) simp_all
    from l(1) s have sh: "length r < length s" by simp
    have "replace_from ?rx [] b s = replace_from ?rx [] (b @ l) r"
      using m sh c by (simp add: replace_from.simps [of ?rx "[]" b s])
    moreover from less.prems s l(2) have "sublist ''<script'' r"
      using sublist_skip [of "CHR ''<''" l "''script''" r] by simp
    ultimately show ?thesis using less.hyps [OF sh] by simp
  next
    case False
    then have m: "rmatch (flat ?rx) s = None" unfolding f by (simp add: rmatch_lits_only)
    from less.prems obtain x xs where s: "s = x # xs" by (cases s) auto
    have "replace_from ?rx [] b (x # xs) = x # replace_from ?rx [] (b @ [x]) xs"
      using m [unfolded s] by (simp add: replace_from.simps [of ?rx "[]" b "x # xs"])
    then have out: "replace_from ?rx [] b s = x # replace_from ?rx [] (b @ [x]) xs"
      by (simp only: s)
    from less.prems s have "prefix ''<script'' (x # xs) \<or> sublist ''<script'' xs"
      by (simp only: sublist_Cons_right)
    then show ?thesis
    proof
      assume "sublist ''<script'' xs"
      moreover have "length xs < length s" using s by simp
      ultimately have "sublist ''<script'' (replace_from ?rx [] (b @ [x]) xs)"
        using less.hyps by blast
      then show ?thesis unfolding out by (rule sublist_ConsI)
    next
      assume "prefix ''<script'' (x # xs)"
      then obtain rest where x: "x = CHR ''<''" and xs: "xs = ''script'' @ rest"
        by (auto simp: prefix_def)
      have "replace_from ?rx [] b s = ''<script'' @ replace_from ?rx [] ((b @ [x]) @ ''script'') rest"
        unfolding out xs k x by simp
      then show ?thesis by (metis sublist_appendI append_Nil)
    qed
  qed
qed

lemma strip_crossorigin_keeps_script:
  "sublist ''<script'' s \<Longrightarrow> sublist ''<script'' (strip_crossorigin s)"
  unfolding strip_crossorigin_def crossorigin_rx_def replace_all_def
  by (rule removal_keeps_script)
     (simp_all add: replace_from.simps [of _ _ _ "_ # _"] flat_def lits_def)

lemma strip_bid_keeps_script:
  "sublist ''<script'' s \<Longrightarrow> sublist ''<script'' (strip_bid s)"
  unfolding strip_bid_def bid_rx_def replace_all_def
  by (rule removal_keeps_script)
     (simp_all add: replace_from.simps [of _ _ _ "_ # _"] flat_def lits_def)


lemma rsearch_SomeD:
  "rsearch ps s = Some (a, sps, r) \<Longrightarrow> \<exists>t. s = a @ t \<and> rmatch ps t = Some (sps, r)"
proof (induction s arbitrary: a)
  case Nil
  then show ?case by (auto split: option.splits)
next
  case (Cons x xs)
  show ?case
  proof (cases "rmatch ps (x # xs)")
    case (Some m)
    with Cons.prems have "a = []" "m = (sps, r)" by (auto split: prod.splits)
    with Some show ?thesis by simp
  next
    case None
    with Cons.prems obtain a' where "rsearch ps xs = Some (a', sps, r)" "a = x # a'"
      by auto
    with Cons.IH show ?thesis by auto
  qed
qed

lemma rmatch_lits_spans:
  assumes "rmatch (lits p @ qs) s = Some (sps, r)"
  shows "\<exists>sps'. sps = map (\<lambda>c. [c]) p @ sps'"
  using assms by (auto simp: rmatch_lits split: if_splits)

lemma strip_integrity_keeps_script:
  "sublist ''<script'' s \<Longrightarrow> sublist ''<script'' (strip_integrity s)"
proof (cases "rsearch (flat integrity_rx) s")
  case None
  assume "sublist ''<script'' s"
  with None show ?thesis by (simp add: strip_integrity_def replace_first_def)
next
  case (Some m)
  obtain a sps r where m: "m = (a, sps, r)" by (cases m)
  have f: \<open>flat integrity_rx =
      lits ''<script'' @ ([(Dot, StarG)] @ lits ''integrity="'' @ [(Dot, StarL)] @ lits ''"'')\<close>
    by (simp add: integrity_rx_def flat_def)
  from Some m obtain t where "rmatch (flat integrity_rx) t = Some (sps, r)"
    using rsearch_SomeD by blast
  then obtain sps' where sps: "sps = map (\<lambda>c. [c]) ''<script'' @ sps'"
    unfolding f using rmatch_lits_spans by blast
  have "captures integrity_rx sps = [''<script'' @ concat (take 1 sps')]"
    by (simp add: integrity_rx_def sps lits_def)
  then have "strip_integrity s = a @ (''<script'' @ concat (take 1 sps')) @ r"
    using Some m by (simp only: strip_integrity_def replace_first_def option.case prod.case
        subst_group1)
  then have "strip_integrity s = a @ ''<script'' @ (concat (take 1 sps') @ r)" by simp
  then show ?thesis by (metis sublist_appendI)
qed

lemma before_inject_keeps_script:
  "sublist ''<script'' (rewrite_domains domain regex source) \<Longrightarrow>
     sublist ''<script'' (before_inject domain regex source)"
  unfolding before_inject_def
  by (intro strip_integrity_keeps_script strip_bid_keeps_script strip_crossorigin_keeps_script)

lemma sublist_around:
  "q \<notin> set p \<Longrightarrow> sublist p (g @ q # r) \<Longrightarrow> sublist p g \<or> sublist p r"
proof (induction g)
  case Nil
  from Nil.prems(2) have "prefix p (q # r) \<or> sublist p r"
    by (simp add: sublist_Cons_right)
  then show ?case
  proof
    assume "prefix p (q # r)"
    with Nil.prems(1) have "p = []" by (cases p) auto
    then show ?thesis by simp
  next
    assume "sublist p r"
    then show ?thesis by simp
  qed
next
  case (Cons y g)
  from Cons.prems(2) have "prefix p ((y # g) @ q # r) \<or> sublist p (g @ q # r)"
    by (simp add: sublist_Cons_right)
  then show ?case
  proof
    assume "sublist p (g @ q # r)"
    with Cons.IH Cons.prems(1) have "sublist p g \<or> sublist p r" by blast
    then show ?thesis by (auto intro: sublist_ConsI)
  next
    assume "prefix p ((y # g) @ q # r)"
    then have "prefix p (y # g) \<or> (\<exists>us. p = (y # g) @ us \<and> prefix us (q # r))"
      by (simp only: prefix_append)
    then show ?thesis
    proof
      assume "prefix p (y # g)"
      then show ?thesis by (blast intro: prefix_imp_sublist)
    next
      assume "\<exists>us. p = (y # g) @ us \<and> prefix us (q # r)"
      then obtain us where p: "p = (y # g) @ us" and u: "prefix us (q # r)" by blast
      from u Cons.prems(1) p have "us = []" by (cases us) auto
      with p show ?thesis by simp
    qed
  qed
qed

lemma star_tail_spans:
  "rmatch [(NoneOf cs, StarG), (OneOf cs, One)] t = Some (sps, r) \<Longrightarrow>
     \<exists>g q. sps = [g, [q]] \<and> t = g @ q # r \<and> q \<in> set cs"
proof (induction t arbitrary: sps)
  case Nil
  then show ?case by simp
next
  case (Cons x xs)
  show ?case
  proof (cases "x \<in> set cs")
    case True
    with Cons.prems have "sps = [[], [x]]" "r = xs" by auto
    with True show ?thesis by simp
  next
    case False
    with Cons.prems obtain m where m: "rmatch [(NoneOf cs, StarG), (OneOf cs, One)] xs = Some m"
      and a: "add_char x m = (sps, r)"
      by (auto split: option.splits)
    from a have "snd m = r" by (rule add_char_snd)
    with m have "rmatch [(NoneOf cs, StarG), (OneOf cs, One)] xs = Some (fst m, r)"
      by (cases m) simp
    from Cons.IH [OF this] obtain g q where "fst m = [g, [q]]" "xs = g @ q # r" "q \<in> set cs"
      by blast
    moreover from this a have "sps = [x # g, [q]]" by (cases m) auto
    ultimately show ?thesis by simp
  qed
qed

lemma url_tail_spans:
  assumes "rmatch [(NoneOf cs, PlusG), (OneOf cs, One)] t = Some (sps, r)"
  shows "\<exists>g q. sps = [g, [q]] \<and> t = g @ q # r \<and> q \<in> set cs"
proof (cases t)
  case Nil
  with assms show ?thesis by simp
next
  case (Cons x xs)
  with assms obtain m where m: "rmatch [(NoneOf cs, StarG), (OneOf cs, One)] xs = Some m"
    and a: "add_char x m = (sps, r)"
    by (auto split: if_splits)
  from a have "snd m = r" by (rule add_char_snd)
  with m have "rmatch [(NoneOf cs, StarG), (OneOf cs, One)] xs = Some (fst m, r)"
    by (cases m) simp
  from star_tail_spans [OF this] obtain g q where "fst m = [g, [q]]" "xs = g @ q # r" "q \<in> set cs"
    by blast
  moreover from this a have "sps = [x # g, [q]]" by (cases m) auto
  ultimately show ?thesis using Cons by simp
qed

lemma subst_groups_tail: "subst ''/$1$2'' m b a [g1, g2] = ''/'' @ g1 @ g2"
  by (simp add: is_digit_def one_digit_def digit_val_def)

lemma subst_ends_with_groups:
  "\<exists>X. subst (t @ ''/$1$2'') m b a [g1, g2] = X @ g1 @ g2"
proof (induction "length t" arbitrary: t rule: less_induct)
  case less
  let ?S = "''/$1$2''"
  let ?cs = "[g1, g2]"
  have IH: "\<exists>X. subst (t' @ ?S) m b a ?cs = X @ g1 @ g2" if "length t' < length t" for t'
    using less that by blast
  have pre: "\<exists>X. Y @ subst (t' @ ?S) m b a ?cs = X @ g1 @ g2" if "length t' < length t" for t' Y
  proof -
    from IH [OF that] obtain X where "subst (t' @ ?S) m b a ?cs = X @ g1 @ g2" by blast
    then have "Y @ subst (t' @ ?S) m b a ?cs = (Y @ X) @ g1 @ g2" by simp
    then show ?thesis by blast
  qed
  show ?case
  proof (cases t)
    case Nil
    have "subst ?S m b a ?cs = ''/'' @ g1 @ g2" by (rule subst_groups_tail)
    with Nil show ?thesis by (metis append_Nil)
  next
    case (Cons x t1)
    show ?thesis
    proof (cases t1)
      case Nil
      have "subst ([x] @ ?S) m b a ?cs = [x] @ subst ([] @ ?S) m b a ?cs"
        by (simp add: is_digit_def one_digit_def digit_val_def)
      moreover have "length ([]::string) < length t" using Cons by simp
      ultimately show ?thesis using pre [of "[]" "[x]"] Cons Nil by simp
    next
      case c2: (Cons u us)
      have t: "t = x # u # us" using Cons c2 by simp
      have l1: "length (u # us) < length t" and l2: "length us < length t"
        using t by simp_all
      have e: "subst (t @ ?S) m b a ?cs = subst (x # u # (us @ ?S)) m b a ?cs"
        using t by simp
      consider (plain) "x \<noteq> CHR ''$''"
        | (dollar) "x = CHR ''$''" "u = CHR ''$''"
        | (amp) "x = CHR ''$''" "u = CHR ''&''"
        | (before) "x = CHR ''$''" "u = CHR 0x60"
        | (after) "x = CHR ''$''" "u = CHR 0x27"
        | (digit) "x = CHR ''$''" "u \<noteq> CHR ''$''" "u \<noteq> CHR ''&''" "u \<noteq> CHR 0x60" "u \<noteq> CHR 0x27"
            "is_digit u"
        | (other) "x = CHR ''$''" "u \<noteq> CHR ''$''" "u \<noteq> CHR ''&''" "u \<noteq> CHR 0x60" "u \<noteq> CHR 0x27"
            "\<not> is_digit u"
        by blast
      then show ?thesis
      proof cases
        case plain
        then have "subst (t @ ?S) m b a ?cs = [x] @ subst ((u # us) @ ?S) m b a ?cs"
          unfolding e by simp
        with pre [OF l1, of "[x]"] show ?thesis by simp
      next
        case dollar
        then have "subst (t @ ?S) m b a ?cs = ''$'' @ subst (us @ ?S) m b a ?cs"
          unfolding e by simp
        with pre [OF l2, of "''$''"] show ?thesis by simp
      next
        case amp
        then have "subst (t @ ?S) m b a ?cs = m @ subst (us @ ?S) m b a ?cs"
          unfolding e by simp
        with pre [OF l2, of m] show ?thesis by simp
      next
        case before
        then have "subst (t @ ?S) m b a ?cs = b @ subst (us @ ?S) m b a ?cs"
          unfolding e by simp
        with pre [OF l2, of b] show ?thesis by simp
      next
        case after
        then have "subst (t @ ?S) m b a ?cs = a @ subst (us @ ?S) m b a ?cs"
          unfolding e by simp
        with pre [OF l2, of a] show ?thesis by simp
      next
        case other
        then have "subst (t @ ?S) m b a ?cs = ''$'' @ subst ((u # us) @ ?S) m b a ?cs"
          unfolding e by simp
        with pre [OF l1, of "''$''"] show ?thesis by simp
      next
        case digit
        show ?thesis
        proof (cases us)
          case Nil
          have "\<not> is_digit CHR ''/''" by (simp add: is_digit_def)
          with digit Nil have "subst (t @ ?S) m b a ?cs = one_digit u ?cs @ subst ([] @ ?S) m b a ?cs"
            unfolding e by simp
          moreover have "length ([]::string) < length t" using t by simp
          ultimately show ?thesis using pre [of "[]" "one_digit u ?cs"] by simp
        next
          case c3: (Cons v vs)
          have l3: "length vs < length t" using t c3 by simp
          show ?thesis
          proof (cases "is_digit v \<and> 10 * digit_val u + digit_val v \<le> length ?cs")
            case False
            with digit c3
            have "subst (t @ ?S) m b a ?cs = one_digit u ?cs @ subst (us @ ?S) m b a ?cs"
              unfolding e by auto
            with pre [OF l2, of "one_digit u ?cs"] show ?thesis by simp
          next
            case True
            show ?thesis
            proof (cases "1 \<le> 10 * digit_val u + digit_val v")
              case t1: True
              with True digit c3
              have "subst (t @ ?S) m b a ?cs =
                  ?cs ! (10 * digit_val u + digit_val v - 1) @ subst (vs @ ?S) m b a ?cs"
                unfolding e by simp
              with pre [OF l3, of "?cs ! (10 * digit_val u + digit_val v - 1)"] show ?thesis
                by simp
            next
              case f1: False
              with True digit c3
              have "subst (t @ ?S) m b a ?cs = [CHR ''$'', u, v] @ subst (vs @ ?S) m b a ?cs"
                unfolding e by simp
              with pre [OF l3, of "[CHR ''$'', u, v]"] show ?thesis by simp
            qed
          qed
        qed
      qed
    qed
  qed
qed

lemma rmatch_lits_SomeD2:
  assumes "rmatch (lits p @ qs) s = Some (sps, r)"
  shows "\<exists>t sps'. s = p @ t \<and> sps = map (\<lambda>c. [c]) p @ sps' \<and> rmatch qs t = Some (sps', r)"
proof -
  from assms have p: "prefix p s" by (simp add: rmatch_lits split: if_splits)
  then obtain t where t: "s = p @ t" by (auto simp: prefix_def)
  from assms p t obtain m' where m': "rmatch qs t = Some m'"
    and e: "(sps, r) = (map (\<lambda>c. [c]) p @ fst m', snd m')"
    by (auto simp: rmatch_lits)
  then have "rmatch qs t = Some (fst m', r)" "sps = map (\<lambda>c. [c]) p @ fst m'"
    by (cases m'; simp)+
  with t show ?thesis by blast
qed


lemma base_rule_keeps_script:
  "sublist ''<script'' s \<Longrightarrow>
     sublist ''<script'' (replace_from base_rx (domain_template domain) b s)"
proof (induction "length s" arbitrary: s b rule: less_induct)
  case less
  let ?B = "''//11.url.cn/now/''"
  let ?tail = "[(NoneOf closers, PlusG), (OneOf closers, One)]"
  let ?tm = "domain_template domain"
  have f: "flat base_rx = lits ?B @ ?tail" by (simp add: base_rx_def url_tail_def flat_def)
  show ?case
  proof (cases "rmatch (flat base_rx) s")
    case (Some m)
    obtain sps r where m: "m = (sps, r)" by (cases m)
    from Some m have "rmatch (lits ?B @ ?tail) s = Some (sps, r)" by (simp only: f)
    from rmatch_lits_SomeD2 [OF this] obtain t sps' where s: "s = ?B @ t"
      and sps: "sps = map (\<lambda>c. [c]) ?B @ sps'" and t: "rmatch ?tail t = Some (sps', r)"
      by blast
    from url_tail_spans [OF t] obtain g q where sps': "sps' = [g, [q]]"
      and tt: "t = g @ q # r" and q: "q \<in> set closers" by blast
    have sh: "length r < length s" using s tt by simp
    have cs: "captures base_rx sps = [g, [q]]"
      by (simp add: base_rx_def url_tail_def sps sps' lits_def)
    have "?tm = (''//'' @ domain) @ ''/$1$2''" by (simp add: domain_template_def)
    then obtain X where X: "subst ?tm (concat sps) b r [g, [q]] = X @ g @ [q]"
      using subst_ends_with_groups [of "''//'' @ domain" "concat sps" b r g "[q]"] by auto
    have out: "replace_from base_rx ?tm b s =
        (X @ g @ [q]) @ replace_from base_rx ?tm (b @ concat sps) r"
      using Some m sh cs X by (simp add: replace_from.simps [of base_rx ?tm b s])
    from less.prems s have "sublist ''<script'' (g @ q # r)"
      unfolding tt using sublist_skip [of "CHR ''<''" ?B "''script''" "g @ q # r"] by simp
    moreover from q have "q \<notin> set ''<script''" by (auto simp: closers_def)
    ultimately have "sublist ''<script'' g \<or> sublist ''<script'' r" by (rule sublist_around [rotated])
    then show ?thesis
    proof
      assume "sublist ''<script'' g"
      then obtain u v where "g = u @ ''<script'' @ v" by (auto simp: sublist_def)
      then have "replace_from base_rx ?tm b s =
          (X @ u) @ ''<script'' @ (v @ [q] @ replace_from base_rx ?tm (b @ concat sps) r)"
        unfolding out by simp
      then show ?thesis by (metis sublist_appendI)
    next
      assume "sublist ''<script'' r"
      with less.hyps [OF sh] have "sublist ''<script'' (replace_from base_rx ?tm (b @ concat sps) r)"
        by blast
      then show ?thesis unfolding out by (rule sublist_appendI2)
    qed
  next
    case None
    from less.prems obtain x xs where s: "s = x # xs" by (cases s) auto
    have "replace_from base_rx ?tm b (x # xs) = x # replace_from base_rx ?tm (b @ [x]) xs"
      using None [unfolded s] by (simp add: replace_from.simps [of base_rx ?tm b "x # xs"])
    then have out: "replace_from base_rx ?tm b s = x # replace_from base_rx ?tm (b @ [x]) xs"
      by (simp only: s)
    from less.prems s have "prefix ''<script'' (x # xs) \<or> sublist ''<script'' xs"
      by (simp only: sublist_Cons_right)
    then show ?thesis
    proof
      assume "sublist ''<script'' xs"
      moreover have "length xs < length s" using s by simp
      ultimately have "sublist ''<script'' (replace_from base_rx ?tm (b @ [x]) xs)"
        using less.hyps by blast
      then show ?thesis unfolding out by (rule sublist_ConsI)
    next
      assume "prefix ''<script'' (x # xs)"
      then obtain rest where x: "x = CHR ''<''" and xs: "xs = ''script'' @ rest"
        by (auto simp: prefix_def)
      have k: "replace_from base_rx ?tm b' (''script'' @ rest)
              = ''script'' @ replace_from base_rx ?tm (b' @ ''script'') rest" for b'
        by (simp add: replace_from.simps [of _ _ _ "_ # _"] base_rx_def flat_def lits_def)
      have "replace_from base_rx ?tm b s =
          ''<script'' @ replace_from base_rx ?tm ((b @ [x]) @ ''script'') rest"
        unfolding out xs k x by simp
      then show ?thesis by (metis sublist_appendI append_Nil)
    qed
  qed
qed

lemma base_rule_keeps_script_all:
  "sublist ''<script'' s \<Longrightarrow>
     sublist ''<script'' (replace_all base_rx (domain_template domain) s)"
  unfolding replace_all_def by (rule base_rule_keeps_script)


subsection \<open>The removals, one occurrence after the other\<close>









subsection \<open>The integrity rule\<close>











section \<open>The claims\<close>

lemmas rx_defs = base_rx_def url_tail_def closers_def lits_def flat_def crossorigin_rx_def
  bid_rx_def integrity_rx_def script_rx_def pages_rx_def

lemmas ev_defs = replace_all_def replace_from.simps replace_first_def domain_template_def
  is_digit_def digit_val_def one_digit_def

lemmas chain_defs = beforeAddBuffer_def before_inject_def rewrite_domains_def
  strip_crossorigin_def strip_bid_def strip_integrity_def inject_version_def version_json_def
  cdn_rx_def re_source_def re_syntax_def indexOf_def

text \<open>
  C1.  A directory matches when its path has \<^verbatim>\<open>/pages/\<close> in it, with the slash before
  \<^verbatim>\<open>pages\<close>; its page is named by the text after the first \<^verbatim>\<open>/pages/\<close>, up to the end of
  the line.  When every directory of the list matches and no page is named \<^verbatim>\<open>__proto__\<close>,
  the planner makes one \<^verbatim>\<open>HtmlWebpackPlugin\<close> for each directory, in the order of the
  list, with the page as its only chunk, the file \<^verbatim>\<open><name>.html\<close> and \<^verbatim>\<open>inject\<close> set to
  \<^verbatim>\<open>inject && isEntryFileExists\<close>; a page is a key of \<^verbatim>\<open>newEntry\<close> exactly when \<^verbatim>\<open>init.js\<close>
  exists in a directory of that page, and every entry of \<^verbatim>\<open>newEntry\<close> is such a page with
  its \<^verbatim>\<open>init.js\<close>.  For the directories \<^verbatim>\<open>dir/pages/a\<close> (no \<^verbatim>\<open>init.js\<close>) and \<^verbatim>\<open>dir/pages/b\<close>
  (with \<^verbatim>\<open>init.js\<close>), \<^verbatim>\<open>dir\<close> any path that does not itself go through a \<^verbatim>\<open>pages\<close>
  directory: \<^verbatim>\<open>newEntry\<close> is \<^verbatim>\<open>{b: "dir/pages/b/init.js"}\<close>, there are two plugins, \<^verbatim>\<open>inject\<close>
  is false for \<^verbatim>\<open>a\<close> and is the option for \<^verbatim>\<open>b\<close>.
\<close>

theorem planner_matching_pages:
  assumes "\<forall>e \<in> set entries. sublist ''/pages/'' e \<and> pageName e \<noteq> Some ''__proto__''"
  shows
    "(let r = setMultiplePage projectRoot existsSync entries minifyHtml injectOpt inlineCSS
                assetsPfx htmlPrefix
      in length (htmlWebpackPlugins r) = length entries \<and>
         (\<forall>i < length entries.
            \<exists>a b. entries ! i = a @ ''/pages/'' @ b \<and>
              \<not> sublist ''/pages/'' (a @ ''/pages'') \<and>
              pageName (entries ! i) = Some (takeWhile (\<lambda>c. c \<noteq> CHR 0x0A \<and> c \<noteq> CHR 0x0D) b) \<and>
              chunks (htmlWebpackPlugins r ! i) = [pageName (entries ! i)] \<and>
              html_filename (htmlWebpackPlugins r ! i)
                = (if htmlPrefix \<noteq> [] then htmlPrefix @ ''/'' else []) @
                  takeWhile (\<lambda>c. c \<noteq> CHR 0x0A \<and> c \<noteq> CHR 0x0D) b @ ''.html'' \<and>
              inject (htmlWebpackPlugins r ! i)
                = (injectOpt \<and> existsSync (entries ! i @ ''/init.js''))) \<and>
         (\<forall>n. n \<in> fst ` set (newEntry r) \<longleftrightarrow>
            (\<exists>e \<in> set entries. pageName e = Some n \<and> existsSync (e @ ''/init.js''))) \<and>
         (\<forall>(n, f) \<in> set (newEntry r).
            \<exists>e \<in> set entries. pageName e = Some n \<and> f = e @ ''/init.js'' \<and> existsSync f)) \<and>
     (\<not> sublist ''/pages/'' (dir @ ''/pages'') \<and>
      \<not> existsSync (dir @ ''/pages/a/init.js'') \<and> existsSync (dir @ ''/pages/b/init.js'') \<longrightarrow>
      (let r = setMultiplePage projectRoot existsSync [dir @ ''/pages/a'', dir @ ''/pages/b'']
                 minifyHtml injectOpt inlineCSS assetsPfx htmlPrefix
       in newEntry r = [(''b'', dir @ ''/pages/b/init.js'')] \<and>
          length (htmlWebpackPlugins r) = 2 \<and>
          chunks (htmlWebpackPlugins r ! 0) = [Some ''a''] \<and>
          chunks (htmlWebpackPlugins r ! 1) = [Some ''b''] \<and>
          inject (htmlWebpackPlugins r ! 0) = False \<and>
          inject (htmlWebpackPlugins r ! 1) = injectOpt))"
proof -
  let ?step = "page_step projectRoot existsSync minifyHtml injectOpt inlineCSS assetsPfx htmlPrefix"
  let ?r = "setMultiplePage projectRoot existsSync entries minifyHtml injectOpt inlineCSS
              assetsPfx htmlPrefix"
  let ?line = "takeWhile (\<lambda>c. c \<noteq> CHR 0x0A \<and> c \<noteq> CHR 0x0D)"
  have some: "pageName e \<noteq> None" if "e \<in> set entries" for e
    using assms that by (simp add: pageName_None_iff)
  have name: "js_string (pageName e) = n \<longleftrightarrow> pageName e = Some n" if "e \<in> set entries" for e n
    using some [OF that] by (cases "pageName e") auto
  have np: "js_string (pageName e) \<noteq> ''__proto__''" if "e \<in> set entries" for e
    using assms that name [OF that, of "''__proto__''"] by blast
  have hs: "htmlWebpackPlugins ?r =
      map (\<lambda>e. html_plugin_of projectRoot minifyHtml injectOpt inlineCSS assetsPfx htmlPrefix
                 (pageName e) (existsSync (e @ ''/init.js''))) entries"
    by (simp add: htmlWebpackPlugins_def setMultiplePage_def plugins_foldl)
  have 1: "length (htmlWebpackPlugins ?r) = length entries" by (simp add: hs)
  have 2: "\<exists>a b. entries ! i = a @ ''/pages/'' @ b \<and>
              \<not> sublist ''/pages/'' (a @ ''/pages'') \<and>
              pageName (entries ! i) = Some (?line b) \<and>
              chunks (htmlWebpackPlugins ?r ! i) = [pageName (entries ! i)] \<and>
              html_filename (htmlWebpackPlugins ?r ! i)
                = (if htmlPrefix \<noteq> [] then htmlPrefix @ ''/'' else []) @ ?line b @ ''.html'' \<and>
              inject (htmlWebpackPlugins ?r ! i)
                = (injectOpt \<and> existsSync (entries ! i @ ''/init.js''))"
    if i: "i < length entries" for i
  proof -
    from i have "entries ! i \<in> set entries" by simp
    with assms have "sublist ''/pages/'' (entries ! i)" by blast
    then obtain a b where ab: "split_first ''/pages/'' (entries ! i) = Some (a, b)"
      using sublist_split_first by blast
    have e: "entries ! i = a @ ''/pages/'' @ b" using ab by (rule split_first_SomeD)
    have f: "\<not> sublist ''/pages/'' (a @ ''/pages'')"
      using split_first_is_first [OF ab] by simp
    have p: "pageName (entries ! i) = Some (?line b)" using ab by (simp add: pageName_eq)
    have c: "chunks (htmlWebpackPlugins ?r ! i) = [pageName (entries ! i)]"
      using i by (simp add: hs html_plugin_of_def)
    have h: "html_filename (htmlWebpackPlugins ?r ! i)
                = (if htmlPrefix \<noteq> [] then htmlPrefix @ ''/'' else []) @ ?line b @ ''.html''"
      using i p by (simp add: hs html_plugin_of_def)
    have j: "inject (htmlWebpackPlugins ?r ! i)
                = (injectOpt \<and> existsSync (entries ! i @ ''/init.js''))"
      using i by (simp add: hs html_plugin_of_def)
    from e f p c h j show ?thesis by blast
  qed
  have "fst ` set (newEntry ?r) =
      {js_string (pageName e) | e. e \<in> set entries \<and> existsSync (e @ ''/init.js'') \<and>
         js_string (pageName e) \<noteq> ''__proto__''}"
    by (simp add: newEntry_def setMultiplePage_def keys_foldl)
  then have 3: "\<forall>n. n \<in> fst ` set (newEntry ?r) \<longleftrightarrow>
            (\<exists>e \<in> set entries. pageName e = Some n \<and> existsSync (e @ ''/init.js''))"
    using name np by auto
  have 4: "\<forall>(n, f) \<in> set (newEntry ?r).
            \<exists>e \<in> set entries. pageName e = Some n \<and> f = e @ ''/init.js'' \<and> existsSync f"
  proof (clarify)
    fix n f assume "(n, f) \<in> set (newEntry ?r)"
    then have "(n, f) \<in> set (fst (foldl ?step ([], []) entries))"
      by (simp add: newEntry_def setMultiplePage_def)
    from entries_foldl [OF this] obtain e where
      "e \<in> set entries" "n = js_string (pageName e)" "f = e @ ''/init.js''" "existsSync f"
      by auto
    with name [of e n] show "\<exists>e \<in> set entries. pageName e = Some n \<and> f = e @ ''/init.js'' \<and> existsSync f"
      by auto
  qed
  have 5: "\<not> sublist ''/pages/'' (dir @ ''/pages'') \<and>
      \<not> existsSync (dir @ ''/pages/a/init.js'') \<and> existsSync (dir @ ''/pages/b/init.js'') \<longrightarrow>
      (let r = setMultiplePage projectRoot existsSync [dir @ ''/pages/a'', dir @ ''/pages/b'']
                 minifyHtml injectOpt inlineCSS assetsPfx htmlPrefix
       in newEntry r = [(''b'', dir @ ''/pages/b/init.js'')] \<and>
          length (htmlWebpackPlugins r) = 2 \<and>
          chunks (htmlWebpackPlugins r ! 0) = [Some ''a''] \<and>
          chunks (htmlWebpackPlugins r ! 1) = [Some ''b''] \<and>
          inject (htmlWebpackPlugins r ! 0) = False \<and>
          inject (htmlWebpackPlugins r ! 1) = injectOpt)"
  proof
    assume h: "\<not> sublist ''/pages/'' (dir @ ''/pages'') \<and>
      \<not> existsSync (dir @ ''/pages/a/init.js'') \<and> existsSync (dir @ ''/pages/b/init.js'')"
    have pa: "pageName (dir @ ''/pages/a'') = Some ''a''"
      using h pageName_under_pages [of dir "''a''"] by simp
    have pb: "pageName (dir @ ''/pages/b'') = Some ''b''"
      using h pageName_under_pages [of dir "''b''"] by simp
    from h pa pb
    show "let r = setMultiplePage projectRoot existsSync [dir @ ''/pages/a'', dir @ ''/pages/b'']
                 minifyHtml injectOpt inlineCSS assetsPfx htmlPrefix
       in newEntry r = [(''b'', dir @ ''/pages/b/init.js'')] \<and>
          length (htmlWebpackPlugins r) = 2 \<and>
          chunks (htmlWebpackPlugins r ! 0) = [Some ''a''] \<and>
          chunks (htmlWebpackPlugins r ! 1) = [Some ''b''] \<and>
          inject (htmlWebpackPlugins r ! 0) = False \<and>
          inject (htmlWebpackPlugins r ! 1) = injectOpt"
      by (simp add: setMultiplePage_def page_step_def newEntry_def htmlWebpackPlugins_def
          html_plugin_of_def obj_set_def Let_def)
  qed
  from 1 2 3 4 5 show ?thesis by (simp add: Let_def)
qed

theorem planner_matching_pages_witness:
  "sublist ''/pages/'' ''/proj/src/pages/a'' \<and> sublist ''/pages/'' ''/proj/src/pages/b'' \<and>
   pageName ''/proj/src/pages/a'' = Some ''a'' \<and> pageName ''/proj/src/pages/b'' = Some ''b'' \<and>
   \<not> sublist ''/pages/'' (''/proj/src'' @ ''/pages'') \<and>
   (let r = setMultiplePage ''/proj'' (\<lambda>f. f = ''/proj/src/pages/b/init.js'')
              [''/proj/src/pages/a'', ''/proj/src/pages/b''] False True False ''cdn'' ''webserver''
    in newEntry r = [(''b'', ''/proj/src/pages/b/init.js'')] \<and>
       length (htmlWebpackPlugins r) = 2 \<and>
       chunks (htmlWebpackPlugins r ! 0) = [Some ''a''] \<and>
       chunks (htmlWebpackPlugins r ! 1) = [Some ''b''] \<and>
       inject (htmlWebpackPlugins r ! 0) = False \<and>
       inject (htmlWebpackPlugins r ! 1) = True)"
proof -
  have sa: "sublist ''/pages/'' ''/proj/src/pages/a''" by (simp add: sublist_Cons_right)
  have sb: "sublist ''/pages/'' ''/proj/src/pages/b''" by (simp add: sublist_Cons_right)
  have a: "pageName ''/proj/src/pages/a'' = Some ''a''" by (simp add: pageName_eq)
  have b: "pageName ''/proj/src/pages/b'' = Some ''b''" by (simp add: pageName_eq)
  from sa sb a b
  have m: "\<forall>e \<in> set [''/proj/src/pages/a'', ''/proj/src/pages/b''].
             sublist ''/pages/'' e \<and> pageName e \<noteq> Some ''__proto__''"
    by simp
  have n: "\<not> sublist ''/pages/'' (''/proj/src'' @ ''/pages'')"
    by (simp add: sublist_Cons_right)
  then have e: "\<not> sublist ''/pages/'' (''/proj/src'' @ ''/pages'') \<and>
           \<not> (\<lambda>f. f = ''/proj/src/pages/b/init.js'') (''/proj/src'' @ ''/pages/a/init.js'') \<and>
           (\<lambda>f. f = ''/proj/src/pages/b/init.js'') (''/proj/src'' @ ''/pages/b/init.js'')"
    by simp
  note t = planner_matching_pages [OF m, where dir = "''/proj/src''"
      and existsSync = "\<lambda>f. f = ''/proj/src/pages/b/init.js''" and projectRoot = "''/proj''"
      and minifyHtml = False and injectOpt = True and inlineCSS = False
      and assetsPfx = "''cdn''" and htmlPrefix = "''webserver''"]
  note s = t [THEN conjunct2, THEN mp, OF e]
  from s have "let r = setMultiplePage ''/proj'' (\<lambda>f. f = ''/proj/src/pages/b/init.js'')
              [''/proj/src/pages/a'', ''/proj/src/pages/b''] False True False ''cdn'' ''webserver''
    in newEntry r = [(''b'', ''/proj/src/pages/b/init.js'')] \<and>
       length (htmlWebpackPlugins r) = 2 \<and>
       chunks (htmlWebpackPlugins r ! 0) = [Some ''a''] \<and>
       chunks (htmlWebpackPlugins r ! 1) = [Some ''b''] \<and>
       inject (htmlWebpackPlugins r ! 0) = False \<and>
       inject (htmlWebpackPlugins r ! 1) = True" by simp
  with sa sb a b n show ?thesis by (intro conjI)
qed

theorem planner_literal_pages_counterexample:
  "pageName ''pages/a'' = None \<and> pageName ''pages/b'' = None \<and>
   newEntry (setMultiplePage ''/proj'' (\<lambda>f. f = ''pages/b/init.js'') [''pages/a'', ''pages/b'']
               False True False ''cdn'' ''webserver'')
     = [(''null'', ''pages/b/init.js'')] \<and>
   map chunks (htmlWebpackPlugins (setMultiplePage ''/proj'' (\<lambda>f. f = ''pages/b/init.js'')
                 [''pages/a'', ''pages/b''] False True False ''cdn'' ''webserver''))
     = [[None], [None]] \<and>
   pageName ''/proj/src/pages/__proto__'' = Some ''__proto__'' \<and>
   newEntry (setMultiplePage ''/proj'' (\<lambda>f. True) [''/proj/src/pages/__proto__'']
               False True False ''cdn'' ''webserver'') = []"
  by (simp add: setMultiplePage_def page_step_def newEntry_def htmlWebpackPlugins_def
      html_plugin_of_def pageName_eq obj_set_def Let_def)

text \<open>
  C2.  A directory that does not match \<^verbatim>\<open>/pages/<name>\<close> is not skipped, and nothing is
  raised for it: the planner makes one \<^verbatim>\<open>HtmlWebpackPlugin\<close> for every directory of the
  list, matching or not.  For a directory that does not match, the page name is
  \<^verbatim>\<open>null\<close>: the chunk is \<^verbatim>\<open>null\<close>, the file is \<^verbatim>\<open>null.html\<close>, and when its \<^verbatim>\<open>init.js\<close>
  exists \<^verbatim>\<open>newEntry\<close> gets the key \<^verbatim>\<open>"null"\<close>.
\<close>

theorem planner_keeps_other_directories:
  "(let r = setMultiplePage projectRoot existsSync entries minifyHtml injectOpt inlineCSS
              assetsPfx htmlPrefix
    in length (htmlWebpackPlugins r) = length entries \<and>
       (\<forall>i < length entries. pageName (entries ! i) = None \<longrightarrow>
          chunks (htmlWebpackPlugins r ! i) = [None] \<and>
          html_filename (htmlWebpackPlugins r ! i)
            = (if htmlPrefix \<noteq> [] then htmlPrefix @ ''/'' else []) @ ''null.html'' \<and>
          (existsSync (entries ! i @ ''/init.js'') \<longrightarrow> ''null'' \<in> fst ` set (newEntry r))))"
proof -
  let ?r = "setMultiplePage projectRoot existsSync entries minifyHtml injectOpt inlineCSS
              assetsPfx htmlPrefix"
  have hs: "htmlWebpackPlugins ?r =
      map (\<lambda>e. html_plugin_of projectRoot minifyHtml injectOpt inlineCSS assetsPfx htmlPrefix
                 (pageName e) (existsSync (e @ ''/init.js''))) entries"
    by (simp add: htmlWebpackPlugins_def setMultiplePage_def plugins_foldl)
  have ks: "fst ` set (newEntry ?r) =
      {js_string (pageName e) | e. e \<in> set entries \<and> existsSync (e @ ''/init.js'') \<and>
         js_string (pageName e) \<noteq> ''__proto__''}"
    by (simp add: newEntry_def setMultiplePage_def keys_foldl)
  have 1: "length (htmlWebpackPlugins ?r) = length entries" by (simp add: hs)
  have 2: "chunks (htmlWebpackPlugins ?r ! i) = [None] \<and>
          html_filename (htmlWebpackPlugins ?r ! i)
            = (if htmlPrefix \<noteq> [] then htmlPrefix @ ''/'' else []) @ ''null.html'' \<and>
          (existsSync (entries ! i @ ''/init.js'') \<longrightarrow> ''null'' \<in> fst ` set (newEntry ?r))"
    if i: "i < length entries" and n: "pageName (entries ! i) = None" for i
  proof -
    from i have "entries ! i \<in> set entries" by simp
    with n have "existsSync (entries ! i @ ''/init.js'') \<longrightarrow> ''null'' \<in> fst ` set (newEntry ?r)"
      unfolding ks by force
    with i n show ?thesis by (simp add: hs html_plugin_of_def)
  qed
  from 1 2 show ?thesis by (simp add: Let_def)
qed

theorem planner_keeps_other_directories_witness:
  "pageName ''/proj/src/other'' = None \<and>
   (let r = setMultiplePage ''/proj'' (\<lambda>f. True) [''/proj/src/other''] False True False
              ''cdn'' ''webserver''
    in length (htmlWebpackPlugins r) = 1 \<and>
       chunks (htmlWebpackPlugins r ! 0) = [None] \<and>
       html_filename (htmlWebpackPlugins r ! 0) = ''webserver/null.html'' \<and>
       ''null'' \<in> fst ` set (newEntry r))"
proof -
  have n: "pageName ''/proj/src/other'' = None" by (simp add: pageName_eq)
  note t = planner_keeps_other_directories [of "''/proj''" "\<lambda>f. True" "[''/proj/src/other'']"
      False True False "''cdn''" "''webserver''"]
  from t n show ?thesis by (simp add: Let_def)
qed

theorem planner_skip_counterexample:
  "pageName ''/proj/src/other'' = None \<and>
   newEntry (setMultiplePage ''/proj'' (\<lambda>f. True) [''/proj/src/other''] False True False
               ''cdn'' ''webserver'')
     = [(''null'', ''/proj/src/other/init.js'')] \<and>
   length (htmlWebpackPlugins (setMultiplePage ''/proj'' (\<lambda>f. True) [''/proj/src/other'']
             False True False ''cdn'' ''webserver'')) = 1"
  by (simp add: setMultiplePage_def page_step_def newEntry_def htmlWebpackPlugins_def
      pageName_eq obj_set_def Let_def)

text \<open>
  C3.  \<^verbatim>\<open>pathMapper\<close> takes the first occurrence of the markup prefix out of a path that
  contains it, else the first occurrence of the static-asset prefix out of a path that
  contains that one, and joins the result onto the server base (\<^verbatim>\<open>serverUrl\<close> without
  its first \<^verbatim>\<open>//\<close>).  A path with neither prefix has nothing taken out, and is joined
  onto the server base like the others.
\<close>

theorem pathMapper_cases:
  "(sublist htmlPrefix assetPath \<longrightarrow>
      (\<exists>a b. assetPath = a @ htmlPrefix @ b \<and>
         (htmlPrefix \<noteq> [] \<longrightarrow> \<not> sublist htmlPrefix (a @ butlast htmlPrefix)) \<and>
         pathMapper htmlPrefix assetsPfx serverUrl assetPath
           = path_join [replace_str serverUrl ''//'' [], a @ b])) \<and>
   (\<not> sublist htmlPrefix assetPath \<and> sublist assetsPfx assetPath \<longrightarrow>
      (\<exists>a b. assetPath = a @ assetsPfx @ b \<and>
         (assetsPfx \<noteq> [] \<longrightarrow> \<not> sublist assetsPfx (a @ butlast assetsPfx)) \<and>
         pathMapper htmlPrefix assetsPfx serverUrl assetPath
           = path_join [replace_str serverUrl ''//'' [], a @ b])) \<and>
   (\<not> sublist htmlPrefix assetPath \<and> \<not> sublist assetsPfx assetPath \<longrightarrow>
      pathMapper htmlPrefix assetsPfx serverUrl assetPath
        = path_join [replace_str serverUrl ''//'' [], assetPath]) \<and>
   pathMapper ''webserver'' ''cdn'' ''//now.qq.com'' ''webserver/index.html'' = ''now.qq.com/index.html'' \<and>
   pathMapper ''webserver'' ''cdn'' ''//now.qq.com'' ''cdn/img/a.png'' = ''now.qq.com/img/a.png'' \<and>
   pathMapper ''webserver'' ''cdn'' ''//now.qq.com'' ''img/a.png'' = ''now.qq.com/img/a.png''"
proof -
  have strip: "\<exists>a b. s = a @ p @ b \<and> (p \<noteq> [] \<longrightarrow> \<not> sublist p (a @ butlast p)) \<and>
      replace_str s p [] = a @ b" if "sublist p s" for p s
  proof -
    from that obtain a b where ab: "split_first p s = Some (a, b)"
      using sublist_split_first by blast
    have "s = a @ p @ b" using ab by (rule split_first_SomeD)
    moreover have "p \<noteq> [] \<longrightarrow> \<not> sublist p (a @ butlast p)"
      using split_first_is_first [OF ab] by simp
    moreover have "replace_str s p [] = a @ b" using ab by (simp add: replace_str_def)
    ultimately show ?thesis by blast
  qed
  have 1: "sublist htmlPrefix assetPath \<longrightarrow>
      (\<exists>a b. assetPath = a @ htmlPrefix @ b \<and>
         (htmlPrefix \<noteq> [] \<longrightarrow> \<not> sublist htmlPrefix (a @ butlast htmlPrefix)) \<and>
         pathMapper htmlPrefix assetsPfx serverUrl assetPath
           = path_join [replace_str serverUrl ''//'' [], a @ b])"
  proof
    assume h: "sublist htmlPrefix assetPath"
    then have "pathMapper htmlPrefix assetsPfx serverUrl assetPath
        = path_join [replace_str serverUrl ''//'' [], replace_str assetPath htmlPrefix []]"
      by (simp add: pathMapper_def indexOf_iff)
    moreover from strip [OF h] obtain a b where
      "assetPath = a @ htmlPrefix @ b"
      "htmlPrefix \<noteq> [] \<longrightarrow> \<not> sublist htmlPrefix (a @ butlast htmlPrefix)"
      "replace_str assetPath htmlPrefix [] = a @ b" by blast
    ultimately have "assetPath = a @ htmlPrefix @ b \<and>
         (htmlPrefix \<noteq> [] \<longrightarrow> \<not> sublist htmlPrefix (a @ butlast htmlPrefix)) \<and>
         pathMapper htmlPrefix assetsPfx serverUrl assetPath
           = path_join [replace_str serverUrl ''//'' [], a @ b]"
      by (simp only: simp_thms)
    then show "\<exists>a b. assetPath = a @ htmlPrefix @ b \<and>
         (htmlPrefix \<noteq> [] \<longrightarrow> \<not> sublist htmlPrefix (a @ butlast htmlPrefix)) \<and>
         pathMapper htmlPrefix assetsPfx serverUrl assetPath
           = path_join [replace_str serverUrl ''//'' [], a @ b]"
      by blast
  qed
  have 2: "\<not> sublist htmlPrefix assetPath \<and> sublist assetsPfx assetPath \<longrightarrow>
      (\<exists>a b. assetPath = a @ assetsPfx @ b \<and>
         (assetsPfx \<noteq> [] \<longrightarrow> \<not> sublist assetsPfx (a @ butlast assetsPfx)) \<and>
         pathMapper htmlPrefix assetsPfx serverUrl assetPath
           = path_join [replace_str serverUrl ''//'' [], a @ b])"
  proof
    assume h: "\<not> sublist htmlPrefix assetPath \<and> sublist assetsPfx assetPath"
    then have "pathMapper htmlPrefix assetsPfx serverUrl assetPath
        = path_join [replace_str serverUrl ''//'' [], replace_str assetPath assetsPfx []]"
      by (simp add: pathMapper_def indexOf_iff)
    moreover from strip [of assetsPfx assetPath] h obtain a b where
      "assetPath = a @ assetsPfx @ b"
      "assetsPfx \<noteq> [] \<longrightarrow> \<not> sublist assetsPfx (a @ butlast assetsPfx)"
      "replace_str assetPath assetsPfx [] = a @ b" by blast
    ultimately have "assetPath = a @ assetsPfx @ b \<and>
         (assetsPfx \<noteq> [] \<longrightarrow> \<not> sublist assetsPfx (a @ butlast assetsPfx)) \<and>
         pathMapper htmlPrefix assetsPfx serverUrl assetPath
           = path_join [replace_str serverUrl ''//'' [], a @ b]"
      by (simp only: simp_thms)
    then show "\<exists>a b. assetPath = a @ assetsPfx @ b \<and>
         (assetsPfx \<noteq> [] \<longrightarrow> \<not> sublist assetsPfx (a @ butlast assetsPfx)) \<and>
         pathMapper htmlPrefix assetsPfx serverUrl assetPath
           = path_join [replace_str serverUrl ''//'' [], a @ b]"
      by blast
  qed
  have 3: "\<not> sublist htmlPrefix assetPath \<and> \<not> sublist assetsPfx assetPath \<longrightarrow>
      pathMapper htmlPrefix assetsPfx serverUrl assetPath
        = path_join [replace_str serverUrl ''//'' [], assetPath]"
    by (simp add: pathMapper_def indexOf_iff)
  have 4: "pathMapper ''webserver'' ''cdn'' ''//now.qq.com'' ''webserver/index.html'' = ''now.qq.com/index.html''"
    by (simp add: pathMapper_def indexOf_def replace_str_def path_join_def path_normalize_def Let_def)
  have 5: "pathMapper ''webserver'' ''cdn'' ''//now.qq.com'' ''cdn/img/a.png'' = ''now.qq.com/img/a.png''"
    by (simp add: pathMapper_def indexOf_def replace_str_def path_join_def path_normalize_def Let_def)
  have 6: "pathMapper ''webserver'' ''cdn'' ''//now.qq.com'' ''img/a.png'' = ''now.qq.com/img/a.png''"
    by (simp add: pathMapper_def indexOf_def replace_str_def path_join_def path_normalize_def Let_def)
  from 1 2 3 4 5 6 show ?thesis by (intro conjI)
qed

theorem pathMapper_witness:
  "sublist ''webserver'' ''webserver/index.html'' \<and>
   (\<exists>a b. ''webserver/index.html'' = a @ ''webserver'' @ b \<and>
      pathMapper ''webserver'' ''cdn'' ''//now.qq.com'' ''webserver/index.html''
        = path_join [replace_str ''//now.qq.com'' ''//'' [], a @ b]) \<and>
   \<not> sublist ''webserver'' ''img/a.png'' \<and> \<not> sublist ''cdn'' ''img/a.png'' \<and>
   pathMapper ''webserver'' ''cdn'' ''//now.qq.com'' ''img/a.png''
     = path_join [replace_str ''//now.qq.com'' ''//'' [], ''img/a.png''] \<and>
   path_join [replace_str ''//now.qq.com'' ''//'' [], ''img/a.png''] = ''now.qq.com/img/a.png''"
proof -
  note t = pathMapper_cases [of "''webserver''" "''webserver/index.html''" "''cdn''" "''//now.qq.com''"]
  note u = pathMapper_cases [of "''webserver''" "''img/a.png''" "''cdn''" "''//now.qq.com''"]
  have h: "sublist ''webserver'' ''webserver/index.html''" by (simp add: sublist_Cons_right)
  have n1: "\<not> sublist ''webserver'' ''img/a.png''" by (simp add: sublist_Cons_right)
  have n2: "\<not> sublist ''cdn'' ''img/a.png''" by (simp add: sublist_Cons_right)
  from t [THEN conjunct1, THEN mp, OF h]
  have a: "\<exists>a b. ''webserver/index.html'' = a @ ''webserver'' @ b \<and>
      pathMapper ''webserver'' ''cdn'' ''//now.qq.com'' ''webserver/index.html''
        = path_join [replace_str ''//now.qq.com'' ''//'' [], a @ b]" by blast
  from u [THEN conjunct2, THEN conjunct2, THEN conjunct1] n1 n2
  have b: "pathMapper ''webserver'' ''cdn'' ''//now.qq.com'' ''img/a.png''
     = path_join [replace_str ''//now.qq.com'' ''//'' [], ''img/a.png'']" by blast
  have c: "path_join [replace_str ''//now.qq.com'' ''//'' [], ''img/a.png''] = ''now.qq.com/img/a.png''"
    by (simp add: replace_str_def path_join_def path_normalize_def Let_def)
  from h a n1 n2 b c show ?thesis by (intro conjI)
qed

theorem pathMapper_counterexample:
  "\<not> sublist ''webserver'' ''img/a.png'' \<and> \<not> sublist ''cdn'' ''img/a.png'' \<and>
   pathMapper ''webserver'' ''cdn'' ''//now.qq.com'' ''img/a.png'' = ''now.qq.com/img/a.png'' \<and>
   pathMapper ''webserver'' ''cdn'' ''//now.qq.com'' ''img/a.png'' \<noteq> ''img/a.png''"
  by (simp add: sublist_Cons_right pathMapper_def indexOf_def replace_str_def path_join_def
      path_normalize_def Let_def)



text \<open>
  C5.  With overrides (an object, each key once) the result gives every key of the
  overrides the value of the overrides, on a key that the discovered table has too as
  well, and gives every other key the value of the discovered table.  With overrides
  that are empty or absent the result is the discovered table.
\<close>

theorem overrides_take_precedence:
  assumes "distinct (map fst overrides)"
  shows "(\<forall>k v. map_of overrides k = Some v \<longrightarrow>
            map_of (setAlias projectRoot subdirs (Some overrides)) k = Some v) \<and>
         (\<forall>k. map_of overrides k = None \<longrightarrow>
            map_of (setAlias projectRoot subdirs (Some overrides)) k
              = map_of (aliasObject projectRoot subdirs) k) \<and>
         setAlias projectRoot subdirs (Some []) = aliasObject projectRoot subdirs \<and>
         setAlias projectRoot subdirs None = aliasObject projectRoot subdirs"
proof -
  have l: "map_of (setAlias projectRoot subdirs (Some overrides)) k =
      (case map_of overrides k of Some v \<Rightarrow> Some v
       | None \<Rightarrow> map_of (aliasObject projectRoot subdirs) k)" for k
  proof (cases "overrides = []")
    case True
    then show ?thesis by (simp add: setAlias_def)
  next
    case False
    then show ?thesis using merge_lookup [OF assms] by (simp add: setAlias_def)
  qed
  have "setAlias projectRoot subdirs (Some []) = aliasObject projectRoot subdirs"
    and "setAlias projectRoot subdirs None = aliasObject projectRoot subdirs"
    by (simp_all add: setAlias_def)
  with l show ?thesis by simp
qed

theorem overrides_witness:
  "distinct (map fst [(''assets'', ''/elsewhere''), (''x'', ''/y'')]) \<and>
   map_of (aliasObject ''/proj'' (\<lambda>d. [''assets'', ''pages''])) ''assets'' = Some ''/proj/src/assets'' \<and>
   map_of (setAlias ''/proj'' (\<lambda>d. [''assets'', ''pages''])
             (Some [(''assets'', ''/elsewhere''), (''x'', ''/y'')])) ''assets'' = Some ''/elsewhere'' \<and>
   map_of (setAlias ''/proj'' (\<lambda>d. [''assets'', ''pages''])
             (Some [(''assets'', ''/elsewhere''), (''x'', ''/y'')])) ''pages'' = Some ''/proj/src/pages''"
proof -
  have d: "distinct (map fst [(''assets'', ''/elsewhere''), (''x'', ''/y'')])" by simp
  note t = overrides_take_precedence [OF d, of "''/proj''" "\<lambda>d. [''assets'', ''pages'']"]
  have a: "map_of (aliasObject ''/proj'' (\<lambda>d. [''assets'', ''pages''])) ''assets'' = Some ''/proj/src/assets''"
    and p: "map_of (aliasObject ''/proj'' (\<lambda>d. [''assets'', ''pages''])) ''pages'' = Some ''/proj/src/pages''"
    by (simp_all add: aliasObject_def listDir_def alias_step_def obj_set_def path_join_def path_normalize_def Let_def)
  have "map_of [(''assets'', ''/elsewhere''), (''x'', ''/y'')] ''assets'' = Some ''/elsewhere''" by simp
  with t have 1: "map_of (setAlias ''/proj'' (\<lambda>d. [''assets'', ''pages''])
             (Some [(''assets'', ''/elsewhere''), (''x'', ''/y'')])) ''assets'' = Some ''/elsewhere''"
    by blast
  have "map_of [(''assets'', ''/elsewhere''), (''x'', ''/y'')] ''pages'' = None" by simp
  with t p have 2: "map_of (setAlias ''/proj'' (\<lambda>d. [''assets'', ''pages''])
             (Some [(''assets'', ''/elsewhere''), (''x'', ''/y'')])) ''pages'' = Some ''/proj/src/pages''"
    by metis
  from d a 1 2 show ?thesis by (intro conjI)
qed




text \<open>
  C7.  For a file whose path does not contain the markup prefix the rewriter is the
  rule for the references to \<^verbatim>\<open>//cdn/product/\<close> alone, whatever the clock says: a text
  without \<^verbatim>\<open>//\<close> comes back as it is, with its \<^verbatim>\<open>crossorigin\<close>, \<^verbatim>\<open>?_bid=152\<close> and
  \<^verbatim>\<open>integrity\<close> and with no inline script.  The rule rewrites a reference that a
  quote, a backquote or a closing parenthesis ends:
  \<^verbatim>\<open>url(//cdn.example.com/productX/a.png?foo=1)\<close> becomes
  \<^verbatim>\<open>url(//static.example.com/a.png?foo=1)\<close>.
\<close>

theorem other_files_only_cdn_rule:
  assumes "\<not> sublist htmlPrefix assetPath" and "cdn_rx cdn product = Some regex"
  shows \<open>beforeAddBuffer htmlPrefix domain cdn product now source assetPath
           = Some (replace_all regex (domain_template domain) source) \<and>
         (\<not> sublist ''//'' source \<longrightarrow>
            beforeAddBuffer htmlPrefix domain cdn product now source assetPath = Some source) \<and>
         beforeAddBuffer htmlPrefix domain cdn product now
           ''<script src="a.js?_bid=152" integrity="sha256-abc" crossorigin="anonymous"></script>''
           assetPath
           = Some ''<script src="a.js?_bid=152" integrity="sha256-abc" crossorigin="anonymous"></script>'' \<and>
         beforeAddBuffer htmlPrefix ''static.example.com'' ''cdn.example.com'' ''productX'' now
           ''url(//cdn.example.com/productX/a.png?foo=1)'' assetPath
           = Some ''url(//static.example.com/a.png?foo=1)''\<close>
proof -
  from assms(1) have i: "indexOf assetPath htmlPrefix = - 1"
    using indexOf_iff [of assetPath htmlPrefix] by simp
  have 1: "\<And>s. beforeAddBuffer htmlPrefix domain cdn product now s assetPath
           = Some (replace_all regex (domain_template domain) s)"
    using i assms(2) by (simp add: beforeAddBuffer_def)
  have 2: "replace_all regex (domain_template domain) s = s" if "\<not> sublist ''//'' s" for s
    using assms(2) that by (rule cdn_replace_no_double_slash)
  have 3: \<open>\<not> sublist ''//''
      ''<script src="a.js?_bid=152" integrity="sha256-abc" crossorigin="anonymous"></script>''\<close>
    by (simp add: sublist_Cons_right)
  have 4: \<open>beforeAddBuffer htmlPrefix ''static.example.com'' ''cdn.example.com'' ''productX'' now
           ''url(//cdn.example.com/productX/a.png?foo=1)'' assetPath
           = Some ''url(//static.example.com/a.png?foo=1)''\<close>
    using i by (simp add: beforeAddBuffer_def cdn_rx_def re_source_def re_syntax_def ev_defs rx_defs)
  from 1 2 3 4 show ?thesis by simp
qed

theorem other_files_witness:
  \<open>\<not> sublist ''webserver'' ''cdn/css/a.css'' \<and>
   cdn_rx ''cdn.example.com'' ''productX'' \<noteq> None \<and>
   \<not> sublist ''//'' ''a{background:url(img/a.png?_bid=152)}'' \<and>
   beforeAddBuffer ''webserver'' ''static.example.com'' ''cdn.example.com'' ''productX'' 1
     ''a{background:url(img/a.png?_bid=152)}'' ''cdn/css/a.css''
     = Some ''a{background:url(img/a.png?_bid=152)}'' \<and>
   beforeAddBuffer ''webserver'' ''static.example.com'' ''cdn.example.com'' ''productX'' 1
     ''url(//cdn.example.com/productX/a.png?foo=1)'' ''cdn/css/a.css''
     = Some ''url(//static.example.com/a.png?foo=1)''\<close>
proof -
  have p: "\<not> sublist ''webserver'' ''cdn/css/a.css''"
    by (simp add: sublist_Cons_right)
  obtain regex where r: "cdn_rx ''cdn.example.com'' ''productX'' = Some regex"
    by (simp add: cdn_rx_def re_source_def re_syntax_def)
  have n: "\<not> sublist ''//'' ''a{background:url(img/a.png?_bid=152)}''"
    by (simp add: sublist_Cons_right)
  note t = other_files_only_cdn_rule [OF p r, of "''static.example.com''" 1
      "''a{background:url(img/a.png?_bid=152)}''"]
  note b = t [THEN conjunct2, THEN conjunct1, rule_format, OF n]
  note d = t [THEN conjunct2, THEN conjunct2, THEN conjunct2]
  from r have "cdn_rx ''cdn.example.com'' ''productX'' \<noteq> None" by simp
  with p n b d show ?thesis by (intro conjI)
qed

theorem other_files_counterexample:
  \<open>\<not> sublist ''webserver'' ''cdn/img/a.png'' \<and>
   beforeAddBuffer ''webserver'' ''static.example.com'' ''cdn.example.com'' ''productX'' 1
     ''//cdn.example.com/productX/a.png?foo=1'' ''cdn/img/a.png''
     = Some ''//cdn.example.com/productX/a.png?foo=1'' \<and>
   beforeAddBuffer ''webserver'' ''static.example.com'' ''cdn.example.com'' ''productX'' 1
     ''//cdn.example.com/productX/a.png?foo=1'' ''cdn/img/a.png''
     \<noteq> Some ''//static.example.com/a.png?foo=1''\<close>
  by (simp add: sublist_Cons_right chain_defs ev_defs rx_defs)




text \<open>
  C9.  Whatever \<^verbatim>\<open>useHash\<close>, \<^verbatim>\<open>pathPrefix\<close>, \<^verbatim>\<open>publicPath\<close> and \<^verbatim>\<open>outDir\<close> are, the
  file-name template that \<^verbatim>\<open>setOutput\<close> returns ends with \<^verbatim>\<open>?_bid=152\<close>, the token
  the offline rewriter strips; without a hash and without a prefix the template is
  \<^verbatim>\<open>[name].js?_bid=152\<close>.
\<close>

theorem setOutput_filename_ends_with_bid:
  "suffix ''?_bid=152'' (filename (setOutput projectRoot useHash pathPrefix pubPath outDir)) \<and>
   filename (setOutput projectRoot False [] pubPath outDir) = ''[name].js?_bid=152''"
proof -
  let ?pre = "(if pathPrefix \<noteq> [] then pathPrefix @ ''/'' else []) @ ''[name]'' @
              (if useHash then ''_[chunkhash:8]'' else []) @ ''.js''"
  have "filename (setOutput projectRoot useHash pathPrefix pubPath outDir) = ?pre @ ''?_bid=152''"
    by (simp add: setOutput_def Let_def)
  then have "suffix ''?_bid=152'' (filename (setOutput projectRoot useHash pathPrefix pubPath outDir))"
    by (metis suffixI)
  moreover have "filename (setOutput projectRoot False [] pubPath outDir) = ''[name].js?_bid=152''"
    by (simp add: setOutput_def Let_def)
  ultimately show ?thesis by simp
qed

theorem setOutput_filename_witness:
  "suffix ''?_bid=152'' (filename (setOutput ''/proj'' True ''js'' ''//cdn/'' ''dist'')) \<and>
   filename (setOutput ''/proj'' True ''js'' ''//cdn/'' ''dist'') = ''js/[name]_[chunkhash:8].js?_bid=152''"
  using setOutput_filename_ends_with_bid [of "''/proj''" True "''js''" "''//cdn/''" "''dist''"]
  by (simp add: setOutput_def Let_def)

text \<open>
  C10.  The markup branch is not a function of the text and the configuration alone.
  With two different values of the clock the two results differ exactly when the text
  that reaches the version step (the input after the two domain rules and the three
  removals) has a \<^verbatim>\<open><script\<close>.  They differ whenever a \<^verbatim>\<open><script\<close> is there after the two
  domain rules, since the three removals keep it; and the first domain rule (the one for
  \<^verbatim>\<open>//11.url.cn/now/\<close>) keeps it too, so that only the rule built from \<^verbatim>\<open>cdn\<close> and
  \<^verbatim>\<open>product\<close> can take a \<^verbatim>\<open><script\<close> of the input away.
\<close>

theorem version_marker_depends_on_clock:
  assumes "now1 \<noteq> now2" and "indexOf assetPath htmlPrefix \<noteq> - 1"
    and "cdn_rx cdn product = Some regex"
  shows "(beforeAddBuffer htmlPrefix domain cdn product now1 source assetPath \<noteq>
          beforeAddBuffer htmlPrefix domain cdn product now2 source assetPath
          \<longleftrightarrow> sublist ''<script'' (before_inject domain regex source)) \<and>
         (sublist ''<script'' (rewrite_domains domain regex source) \<longrightarrow>
          beforeAddBuffer htmlPrefix domain cdn product now1 source assetPath \<noteq>
          beforeAddBuffer htmlPrefix domain cdn product now2 source assetPath) \<and>
         (sublist ''<script'' source \<longrightarrow>
          sublist ''<script'' (replace_all base_rx (domain_template domain) source))"
proof -
  let ?t = "before_inject domain regex source"
  have out: "\<And>n. beforeAddBuffer htmlPrefix domain cdn product n source assetPath
               = Some (inject_version n ?t)"
    using assms(2,3) by (simp add: beforeAddBuffer_def)
  have 1: "beforeAddBuffer htmlPrefix domain cdn product now1 source assetPath \<noteq>
           beforeAddBuffer htmlPrefix domain cdn product now2 source assetPath
           \<longleftrightarrow> sublist ''<script'' ?t"
  proof (cases "sublist ''<script'' ?t")
    case False
    then have "\<And>n. inject_version n ?t = ?t" by (rule inject_version_absent)
    with False out show ?thesis by simp
  next
    case True
    then obtain a b where ab: "split_first ''<script'' ?t = Some (a, b)"
      using sublist_split_first by blast
    have "inject_version now1 ?t \<noteq> inject_version now2 ?t"
    proof
      assume "inject_version now1 ?t = inject_version now2 ?t"
      then have "version_json now1 = version_json now2"
        unfolding inject_version_at [OF ab]
        by (simp add: version_json_def)
      then have "now1 = now2" by (rule version_json_inj)
      with assms(1) show False by simp
    qed
    with True out show ?thesis by simp
  qed
  have 2: "sublist ''<script'' (rewrite_domains domain regex source) \<longrightarrow>
          beforeAddBuffer htmlPrefix domain cdn product now1 source assetPath \<noteq>
          beforeAddBuffer htmlPrefix domain cdn product now2 source assetPath"
    using 1 before_inject_keeps_script [of domain regex source] by blast
  have 3: "sublist ''<script'' source \<longrightarrow>
          sublist ''<script'' (replace_all base_rx (domain_template domain) source)"
    using base_rule_keeps_script_all [of source domain] by blast
  from 1 2 3 show ?thesis by (intro conjI)
qed

theorem version_marker_witness:
  \<open>(1::nat) \<noteq> 2 \<and> indexOf ''webserver/index.html'' ''webserver'' \<noteq> - 1 \<and>
   cdn_rx ''cdn.example.com'' ''productX'' \<noteq> None \<and>
   sublist ''<script'' ''<script src="a.js"></script>'' \<and>
   beforeAddBuffer ''webserver'' ''example.com'' ''cdn.example.com'' ''productX'' 1
     ''<script src="a.js"></script>'' ''webserver/index.html'' \<noteq>
   beforeAddBuffer ''webserver'' ''example.com'' ''cdn.example.com'' ''productX'' 2
     ''<script src="a.js"></script>'' ''webserver/index.html''\<close>
proof -
  let ?s = \<open>''<script src="a.js"></script>''\<close>
  have n: "(1::nat) \<noteq> 2" by simp
  have i: "indexOf ''webserver/index.html'' ''webserver'' \<noteq> - 1"
    by (simp add: indexOf_def)
  have c: "cdn_rx ''cdn.example.com'' ''productX'' \<noteq> None"
    by (simp add: cdn_rx_def re_source_def re_syntax_def)
  then obtain regex where r: "cdn_rx ''cdn.example.com'' ''productX'' = Some regex"
    by blast
  have "slashes_before_closer ?s < 4"
    by (simp add: slashes_before_closer_def closers_def)
  with r have 2: "\<And>tm. replace_all regex tm ?s = ?s"
    by (rule cdn_replace_few_slashes)
  have 1: "\<And>tm. replace_all base_rx tm ?s = ?s"
    by (simp add: ev_defs rx_defs)
  have s: "sublist ''<script'' ?s"
    by (simp add: sublist_Cons_right)
  then have d: "sublist ''<script'' (rewrite_domains ''example.com'' regex ?s)"
    by (simp only: rewrite_domains_def 1 2)
  note t = version_marker_depends_on_clock [OF n i r, of "''example.com''" ?s]
  note u = t [THEN conjunct2, THEN conjunct1, THEN mp, OF d]
  from n i c s u show ?thesis by (intro conjI)
qed

theorem version_marker_counterexample:
  \<open>sublist ''<script'' ''//cdn.example.com/<script/a.js"'' \<and>
   indexOf ''webserver/index.html'' ''webserver'' \<noteq> - 1 \<and>
   beforeAddBuffer ''webserver'' ''example.com'' ''cdn.example.com'' ''<script'' 1
     ''//cdn.example.com/<script/a.js"'' ''webserver/index.html'' = Some ''//example.com/a.js"'' \<and>
   beforeAddBuffer ''webserver'' ''example.com'' ''cdn.example.com'' ''<script'' 2
     ''//cdn.example.com/<script/a.js"'' ''webserver/index.html'' = Some ''//example.com/a.js"''\<close>
  by (simp add: sublist_Cons_right chain_defs ev_defs rx_defs)

end
